theory Spec2Isabelle
  imports Main "HOL-Library.Word" "HOL-Library.Signed_Division"
begin

unbundle bit_operations_syntax

section \<open>The Wii remote driver: data model\<close>

text \<open>
  The driver (wii-remote-driver.c) keeps all of its state in file-level statics: the
  circular buffer \<^verbatim>\<open>circ_buffer[CIRC_BUFFER_SIZE]\<close> with the two C \<^verbatim>\<open>int\<close> indices
  \<^verbatim>\<open>head\<close> and \<^verbatim>\<open>tail\<close>, the mutex that guards them, the pointer to the attached HID
  device, the connection flag and the cached battery level. The record below holds one
  field per static. One more field records what the driver hands to its environment: the
  requests passed to \<^verbatim>\<open>hid_hw_raw_request\<close>, in the order in which they were made.

  The indices are C ints and are modelled as \<open>int\<close>; C's remainder \<^verbatim>\<open>%\<close> truncates
  towards zero and is \<open>smod\<close>. Bytes of text are \<open>char\<close> (8 bits), bytes of a report
  are \<open>8 word\<close>.
\<close>

type_synonym u8 = "8 word"

type_synonym hid_device = nat

type_synonym raw_request = "hid_device \<times> u8 \<times> u8 list"

definition CIRC_BUFFER_SIZE :: int where
  "CIRC_BUFFER_SIZE = 1024"

definition ENODEV :: int where
  "ENODEV = 19"

definition ENOTTY :: int where
  "ENOTTY = 25"

definition EFAULT :: int where
  "EFAULT = 14"

text \<open>\<^verbatim>\<open>_IO('W', 1)\<close>: no direction, no size, type \<^verbatim>\<open>'W'\<close> (0x57) in bits 8 to 15, number 1.\<close>

definition WIIMOTE_IOCTL_REQUEST_STATUS :: nat where
  "WIIMOTE_IOCTL_REQUEST_STATUS = 0x5701"

record driver =
  circ_buffer :: "char list"
  head :: int
  tail :: int
  circ_mutex :: bool
  wii_hid_dev :: "hid_device option"
  wii_connected :: int
  wii_last_battery :: int
  raw_requests :: "raw_request list"

text \<open>The statics as the C initialisers leave them when the module is loaded.\<close>

definition driver_init :: driver where
  "driver_init =
     \<lparr> circ_buffer = replicate 1024 (CHR 0x00), head = 0, tail = 0, circ_mutex = False,
       wii_hid_dev = None, wii_connected = 0, wii_last_battery = - 1, raw_requests = [] \<rparr>"

definition mutex_lock :: "driver \<Rightarrow> driver" where
  "mutex_lock s = s\<lparr>circ_mutex := True\<rparr>"

definition mutex_unlock :: "driver \<Rightarrow> driver" where
  "mutex_unlock s = s\<lparr>circ_mutex := False\<rparr>"

section \<open>The circular buffer\<close>

text \<open>
  The body of the \<^verbatim>\<open>for\<close> loop of \<^verbatim>\<open>circ_buffer_write\<close>, one byte of the input per
  step. The \<^verbatim>\<open>break\<close> on a full buffer ends the loop and leaves the rest of the input
  unread.
\<close>

fun circ_write_loop :: "driver \<Rightarrow> char list \<Rightarrow> driver" where
  "circ_write_loop s [] = s"
| "circ_write_loop s (c # cs) =
     (let next = (head s + 1) smod CIRC_BUFFER_SIZE in
      if next = tail s then s
      else circ_write_loop (s\<lparr>circ_buffer := (circ_buffer s)[nat (head s) := c], head := next\<rparr>) cs)"

text \<open>
  \<^verbatim>\<open>circ_buffer_write(data, len)\<close> reads \<^verbatim>\<open>data[0]\<close> to \<^verbatim>\<open>data[len - 1]\<close>; both
  callers pass a \<^verbatim>\<open>len\<close> that is at most the size of the array they pass (lemmas
  \<open>format_mapping_text\<close> and \<open>wii_raw_event_battery\<close>). It returns \<^verbatim>\<open>void\<close>: the caller
  gets nothing back, only the state changes. The operations are modelled one at a time,
  each running to its end, so the mutex is free whenever one of them takes it; the field
  \<open>circ_mutex\<close> records whether an operation leaves it held.
\<close>

definition circ_buffer_write :: "driver \<Rightarrow> char list \<Rightarrow> nat \<Rightarrow> driver" where
  "circ_buffer_write s data len = mutex_unlock (circ_write_loop (mutex_lock s) (take len data))"

text \<open>
  The \<^verbatim>\<open>while\<close> loop of \<^verbatim>\<open>device_read\<close>. The user's buffer is seen through
  \<open>user_ok\<close>, which tells for each offset whether \<^verbatim>\<open>copy_to_user\<close> can store a byte
  there; \<open>ubuf\<close> collects the bytes stored so far, which lie at offsets
  \<open>0 ..< bytes_copied\<close>. The result is the value returned, the bytes that reached the
  user's buffer, and the new state. Both exits unlock the mutex.
\<close>

function device_read_loop ::
  "driver \<Rightarrow> nat \<Rightarrow> (nat \<Rightarrow> bool) \<Rightarrow> nat \<Rightarrow> char list \<Rightarrow> int \<times> char list \<times> driver" where
  "device_read_loop s count user_ok bytes_copied ubuf =
     (if bytes_copied < count \<and> tail s \<noteq> head s then
        if \<not> user_ok bytes_copied then (- EFAULT, ubuf, mutex_unlock s)
        else device_read_loop (s\<lparr>tail := (tail s + 1) smod CIRC_BUFFER_SIZE\<rparr>) count user_ok
               (Suc bytes_copied) (ubuf @ [circ_buffer s ! nat (tail s)])
      else (int bytes_copied, ubuf, mutex_unlock s))"
  by pat_completeness auto
termination
  by (relation "measure (\<lambda>(s, count, user_ok, bytes_copied, ubuf). count - bytes_copied)") auto

declare device_read_loop.simps [simp del]

definition device_read :: "driver \<Rightarrow> nat \<Rightarrow> (nat \<Rightarrow> bool) \<Rightarrow> int \<times> char list \<times> driver" where
  "device_read s count user_ok = device_read_loop (mutex_lock s) count user_ok 0 []"

text \<open>The occupied byte count as the specification computes it, with C's remainder.\<close>

definition occupied :: "driver \<Rightarrow> int" where
  "occupied s = (head s - tail s + CIRC_BUFFER_SIZE) smod CIRC_BUFFER_SIZE"

text \<open>The well-formed states: both indices inside the array, the array of its declared size.\<close>

definition wf_buffer :: "driver \<Rightarrow> bool" where
  "wf_buffer s =
     (0 \<le> head s \<and> head s < CIRC_BUFFER_SIZE \<and> 0 \<le> tail s \<and> tail s < CIRC_BUFFER_SIZE
      \<and> length (circ_buffer s) = 1024)"

text \<open>
  The \<open>n\<close> bytes of the array that start at index \<open>t\<close> and wrap at the end of the array.
\<close>

definition ring_slice :: "char list \<Rightarrow> int \<Rightarrow> nat \<Rightarrow> char list" where
  "ring_slice buf t n = map (\<lambda>k. buf ! nat ((t + int k) mod CIRC_BUFFER_SIZE)) [0 ..< n]"

text \<open>The bytes stored and not yet read, oldest first: from \<open>tail\<close> up to \<open>head\<close>, wrapping.\<close>

definition contents :: "driver \<Rightarrow> char list" where
  "contents s = ring_slice (circ_buffer s) (tail s) (nat (occupied s))"

text \<open>The number of bytes that can still be stored: one slot of the array always stays unused.\<close>

definition free_space :: "driver \<Rightarrow> nat" where
  "free_space s = nat (CIRC_BUFFER_SIZE - 1 - occupied s)"

text \<open>Sequences of buffer operations, for the claims about interleaved writes and reads.\<close>

datatype buffer_op = Buf_Write "char list" | Buf_Read nat "nat \<Rightarrow> bool"

fun buffer_step :: "driver \<Rightarrow> buffer_op \<Rightarrow> driver" where
  "buffer_step s (Buf_Write data) = circ_buffer_write s data (length data)"
| "buffer_step s (Buf_Read count user_ok) = snd (snd (device_read s count user_ok))"

definition buffer_run :: "driver \<Rightarrow> buffer_op list \<Rightarrow> driver" where
  "buffer_run s ops = foldl buffer_step s ops"

text \<open>
  The state that a read leaves behind when it has consumed \<open>i\<close> bytes: the read index
  moved \<open>i\<close> places round the array.
\<close>

definition advance :: "driver \<Rightarrow> nat \<Rightarrow> driver" where
  "advance s i = s\<lparr>tail := (tail s + int i) mod CIRC_BUFFER_SIZE\<rparr>"

text \<open>
  Writes one after the other, then reads one after the other into user buffers that accept
  every byte. Each read yields its return value and the bytes it delivered.
\<close>

fun write_all :: "driver \<Rightarrow> char list list \<Rightarrow> driver" where
  "write_all s [] = s"
| "write_all s (w # ws) = write_all (circ_buffer_write s w (length w)) ws"

fun read_all :: "driver \<Rightarrow> nat list \<Rightarrow> (int \<times> char list) list" where
  "read_all s [] = []"
| "read_all s (count # counts) =
     (case device_read s count (\<lambda>_. True) of
        (ret, bytes, s') \<Rightarrow> (ret, bytes) # read_all s' counts)"

text \<open>
  What a first-in first-out queue holding \<open>q\<close> hands out to reads of the given counts:
  each read takes at most its count from the front.
\<close>

fun fifo_chunks :: "char list \<Rightarrow> nat list \<Rightarrow> char list list" where
  "fifo_chunks q [] = []"
| "fifo_chunks q (count # counts) = take count q # fifo_chunks (drop count q) counts"

section \<open>Formatting\<close>

text \<open>
  The decimal digits that \<^verbatim>\<open>%u\<close>, and \<^verbatim>\<open>%d\<close> on a value that is not negative, print.
\<close>

function decimal :: "nat \<Rightarrow> string" where
  "decimal n =
     (if n < 10 then [''0123456789'' ! n]
      else decimal (n div 10) @ [''0123456789'' ! (n mod 10)])"
  by pat_completeness auto
termination
  by (relation "measure (\<lambda>n. n)") auto

declare decimal.simps [simp del]

text \<open>
  \<^verbatim>\<open>snprintf(buf + off, size, ...)\<close> where the formatted text is \<open>str\<close> and the size
  is \<open>sz\<close>: at most \<open>sz - 1\<close> characters of the text are stored from offset \<open>off\<close> on,
  followed by a NUL, and the value returned is the length of the whole text, stored or not.
  With \<open>sz = 0\<close>
  nothing is stored. The kernel's \<^verbatim>\<open>vsnprintf\<close> refuses a size above \<^verbatim>\<open>INT_MAX\<close>: it
  stores nothing and returns 0.
\<close>

definition snprintf :: "char list \<Rightarrow> nat \<Rightarrow> nat \<Rightarrow> string \<Rightarrow> char list \<times> int" where
  "snprintf buf off sz str =
     (if sz > 2147483647 then (buf, 0)
      else if sz = 0 then (buf, int (length str))
      else (let w = take (sz - 1) str @ [CHR 0x00]
            in (take off buf @ w @ drop (off + length w) buf, int (length str))))"

text \<open>
  One statement of the form
  \<^verbatim>\<open>if (cond) len += snprintf(mapping_output + len, sizeof(mapping_output) - len, token)\<close>.
  The size argument is a \<^verbatim>\<open>size_t\<close>, so the subtraction is taken modulo \<open>2 ^ 64\<close>.
\<close>

definition append_token :: "bool \<Rightarrow> string \<Rightarrow> char list \<times> int \<Rightarrow> char list \<times> int" where
  "append_token cond token st =
     (if cond then
        (case st of (mapping_output, len) \<Rightarrow>
           (case snprintf mapping_output (nat len) (nat ((256 - len) mod 2 ^ 64)) token of
              (mapping_output', n) \<Rightarrow> (mapping_output', len + n)))
      else st)"

text \<open>
  The formatting part of \<^verbatim>\<open>perform_input_mapping\<close>: the local array
  \<^verbatim>\<open>mapping_output[256]\<close> and \<^verbatim>\<open>len\<close> as they are when \<^verbatim>\<open>circ_buffer_write\<close> is called.
  The array is not initialised in the source; it starts here as 256 NUL bytes, and every
  byte that is later passed on has been stored by a \<^verbatim>\<open>snprintf\<close> or by the newline
  assignment first (lemma \<open>format_mapping_text\<close>). The comparison
  \<^verbatim>\<open>len < sizeof(mapping_output) - 1\<close> is unsigned, so a negative \<^verbatim>\<open>len\<close> fails it.
\<close>

definition format_mapping :: "u8 \<Rightarrow> u8 \<Rightarrow> u8 \<Rightarrow> char list \<times> int" where
  "format_mapping report_id btn_byte1 btn_byte2 =
     (let st0 = (replicate 256 (CHR 0x00), 0);
          st1 = append_token True (''Report: ID='' @ decimal (unat report_id) @ '', '') st0;
          st2 = append_token (btn_byte1 AND 0x01 \<noteq> 0) ''Dpad_Left'' st1;
          st3 = append_token (btn_byte1 AND 0x02 \<noteq> 0) ''Dpad_Right '' st2;
          st4 = append_token (btn_byte1 AND 0x04 \<noteq> 0) ''Dpad_Down '' st3;
          st5 = append_token (btn_byte1 AND 0x08 \<noteq> 0) ''Dpad_Up '' st4;
          st6 = append_token (btn_byte1 AND 0x10 \<noteq> 0) ''Plus '' st5;
          st7 = append_token (btn_byte2 AND 0x10 \<noteq> 0) ''Minus '' st6;
          st8 = append_token (btn_byte2 AND 0x80 \<noteq> 0) ''Home '' st7;
          st9 = append_token (btn_byte2 AND 0x01 \<noteq> 0) ''2 '' st8;
          st10 = append_token (btn_byte2 AND 0x02 \<noteq> 0) ''1 '' st9;
          st11 = append_token (btn_byte2 AND 0x04 \<noteq> 0) ''B '' st10;
          st12 = append_token (btn_byte2 AND 0x08 \<noteq> 0) ''A'' st11;
          st13 = (if snd st12 = 0 then snprintf (fst st12) 0 256 ''No buttons pressed'' else st12)
      in if 0 \<le> snd st13 \<and> snd st13 < 255
         then ((fst st13)[nat (snd st13) := CHR 0x0A, nat (snd st13 + 1) := CHR 0x00], snd st13 + 1)
         else st13)"

text \<open>
  The event that \<^verbatim>\<open>perform_input_mapping\<close> hands to the circular buffer for a report of
  \<open>sz\<close> bytes (the parameter \<^verbatim>\<open>size\<close> of the source): the first \<^verbatim>\<open>len\<close> bytes of \<^verbatim>\<open>mapping_output\<close>, and nothing for a report
  of fewer than 3 bytes.
\<close>

definition decoded_event :: "u8 list \<Rightarrow> int \<Rightarrow> string option" where
  "decoded_event data sz =
     (if sz < 3 then None
      else (case format_mapping (data ! 0) (data ! 1) (data ! 2) of
              (mapping_output, len) \<Rightarrow> Some (take (nat len) mapping_output)))"

definition perform_input_mapping :: "driver \<Rightarrow> u8 list \<Rightarrow> int \<Rightarrow> driver" where
  "perform_input_mapping s data sz =
     (if sz < 3 then s
      else (case format_mapping (data ! 0) (data ! 1) (data ! 2) of
              (mapping_output, len) \<Rightarrow> circ_buffer_write s mapping_output (nat len)))"

section \<open>The HID callbacks and the control path\<close>

text \<open>
  \<^verbatim>\<open>wii_raw_event(hdev, report, data, size)\<close>; \<^verbatim>\<open>hdev\<close> and \<^verbatim>\<open>report\<close> are not used by
  the function and are left out. It always returns 0.
\<close>

definition wii_raw_event :: "driver \<Rightarrow> u8 list \<Rightarrow> int \<Rightarrow> int \<times> driver" where
  "wii_raw_event s data sz =
     (if sz > 0 \<and> data ! 0 = 0x20 then
        if sz \<ge> 2 then
          (case snprintf (replicate 64 (CHR 0x00)) 0 64
                  (''Battery: '' @ decimal (unat (data ! 1)) @ [CHR 0x0A]) of
             (battery_output, len) \<Rightarrow>
               (0, circ_buffer_write (s\<lparr>wii_last_battery := uint (data ! 1)\<rparr>) battery_output (nat len)))
        else (0, s)
      else (0, perform_input_mapping s data sz))"

text \<open>
  \<^verbatim>\<open>hid_hw_raw_request\<close> belongs to the kernel's HID core. The driver sees only its return
  value, which is given here as \<open>hw_ret\<close>; the request itself is recorded in
  \<open>raw_requests\<close>.
\<close>

definition hid_hw_raw_request :: "driver \<Rightarrow> hid_device \<Rightarrow> u8 \<Rightarrow> u8 list \<Rightarrow> int \<Rightarrow> int \<times> driver" where
  "hid_hw_raw_request s hdev reportnum buf hw_ret =
     (hw_ret, s\<lparr>raw_requests := raw_requests s @ [(hdev, reportnum, buf)]\<rparr>)"

definition device_ioctl :: "driver \<Rightarrow> nat \<Rightarrow> int \<Rightarrow> int \<times> driver" where
  "device_ioctl s cmd hw_ret =
     (if cmd = WIIMOTE_IOCTL_REQUEST_STATUS then
        (case wii_hid_dev s of
           Some hdev \<Rightarrow>
             (let status_request = [0x15, 0x00]
              in hid_hw_raw_request s hdev (status_request ! 0) status_request hw_ret)
         | None \<Rightarrow> (- ENODEV, s))
      else (- ENOTTY, s))"

text \<open>
  \<^verbatim>\<open>wii_probe\<close>: \<open>parse_ret\<close> and \<open>start_ret\<close> are what \<^verbatim>\<open>hid_parse\<close> and
  \<^verbatim>\<open>hid_hw_start\<close> return.
\<close>

definition wii_probe :: "driver \<Rightarrow> hid_device \<Rightarrow> int \<Rightarrow> int \<Rightarrow> int \<times> driver" where
  "wii_probe s hdev parse_ret start_ret =
     (if parse_ret \<noteq> 0 then (parse_ret, s)
      else if start_ret \<noteq> 0 then (start_ret, s)
      else (0, s\<lparr>wii_hid_dev := Some hdev, wii_connected := 1\<rparr>))"

definition wii_remove :: "driver \<Rightarrow> driver" where
  "wii_remove s = s\<lparr>wii_hid_dev := None, wii_connected := 0\<rparr>"

text \<open>Everything that can happen to a loaded driver, and runs of such operations.\<close>

datatype driver_op =
    Probe hid_device int int
  | Remove
  | Raw_Event "u8 list"
  | Ioctl nat int
  | Read nat "nat \<Rightarrow> bool"

fun driver_step :: "driver \<Rightarrow> driver_op \<Rightarrow> driver" where
  "driver_step s (Probe hdev parse_ret start_ret) = snd (wii_probe s hdev parse_ret start_ret)"
| "driver_step s Remove = wii_remove s"
| "driver_step s (Raw_Event data) = snd (wii_raw_event s data (int (length data)))"
| "driver_step s (Ioctl cmd hw_ret) = snd (device_ioctl s cmd hw_ret)"
| "driver_step s (Read count user_ok) = snd (snd (device_read s count user_ok))"

definition driver_run :: "driver \<Rightarrow> driver_op list \<Rightarrow> driver" where
  "driver_run s ops = foldl driver_step s ops"

text \<open>
  The Connection State of the specification, read off the two statics that
  \<^verbatim>\<open>wii_proc_show\<close> reports: the connection flag and the cached battery level, where
  \<open>- 1\<close> stands for unknown.
\<close>

datatype connection_state = Disconnected | Connected | Connected_BatteryKnown int

definition connection_state :: "driver \<Rightarrow> connection_state" where
  "connection_state s =
     (if wii_connected s = 0 then Disconnected
      else if wii_last_battery s = - 1 then Connected
      else Connected_BatteryKnown (wii_last_battery s))"

section \<open>The decoder as the specification words it\<close>

text \<open>
  The tokens of the set bits in the order of the specification's table, and the line the
  specification describes: the tokens joined by single spaces after the report identifier.
\<close>

definition spec_tokens :: "u8 \<Rightarrow> u8 \<Rightarrow> string list" where
  "spec_tokens b1 b2 =
     map snd (filter fst
       [(b1 AND 0x01 \<noteq> 0, ''Dpad_Left''), (b1 AND 0x02 \<noteq> 0, ''Dpad_Right''),
        (b1 AND 0x04 \<noteq> 0, ''Dpad_Down''), (b1 AND 0x08 \<noteq> 0, ''Dpad_Up''),
        (b1 AND 0x10 \<noteq> 0, ''Plus''), (b2 AND 0x10 \<noteq> 0, ''Minus''),
        (b2 AND 0x80 \<noteq> 0, ''Home''), (b2 AND 0x01 \<noteq> 0, ''2''),
        (b2 AND 0x02 \<noteq> 0, ''1''), (b2 AND 0x04 \<noteq> 0, ''B''), (b2 AND 0x08 \<noteq> 0, ''A'')])"

fun join_space :: "string list \<Rightarrow> string" where
  "join_space [] = []"
| "join_space [t] = t"
| "join_space (t # ts) = t @ '' '' @ join_space ts"

definition report_header :: "u8 \<Rightarrow> string" where
  "report_header report_id = ''Report: ID='' @ decimal (unat report_id) @ '', ''"

definition spec_event :: "u8 \<Rightarrow> u8 \<Rightarrow> u8 \<Rightarrow> string" where
  "spec_event report_id b1 b2 = report_header report_id @ join_space (spec_tokens b1 b2) @ [CHR 0x0A]"

text \<open>
  The tokens that the source prints with a space after them, for the set bits, in the
  order of the source.
\<close>

definition spaced_tokens :: "u8 \<Rightarrow> u8 \<Rightarrow> string" where
  "spaced_tokens b1 b2 =
     concat (map (\<lambda>p. snd p @ '' '') (filter fst
       [(b1 AND 0x02 \<noteq> 0, ''Dpad_Right''), (b1 AND 0x04 \<noteq> 0, ''Dpad_Down''),
        (b1 AND 0x08 \<noteq> 0, ''Dpad_Up''), (b1 AND 0x10 \<noteq> 0, ''Plus''),
        (b2 AND 0x10 \<noteq> 0, ''Minus''), (b2 AND 0x80 \<noteq> 0, ''Home''),
        (b2 AND 0x01 \<noteq> 0, ''2''), (b2 AND 0x02 \<noteq> 0, ''1''), (b2 AND 0x04 \<noteq> 0, ''B'')]))"

text \<open>
  The event that the source builds for a button report: the header, \<open>Dpad_Left\<close> as the
  source prints it, the tokens printed with a space after them, \<open>A\<close>, and the newline.
\<close>

definition event_text :: "u8 \<Rightarrow> u8 \<Rightarrow> u8 \<Rightarrow> string" where
  "event_text report_id b1 b2 =
     report_header report_id @ (if b1 AND 0x01 \<noteq> 0 then ''Dpad_Left'' else [])
     @ spaced_tokens b1 b2 @ (if b2 AND 0x08 \<noteq> 0 then ''A'' else []) @ [CHR 0x0A]"

text \<open>
  What the formatting steps keep true of \<^verbatim>\<open>mapping_output\<close> and \<^verbatim>\<open>len\<close>: the array has its
  256 bytes, and its first \<^verbatim>\<open>len\<close> bytes are the text printed so far.
\<close>

definition holds_text :: "char list \<times> int \<Rightarrow> string \<Rightarrow> bool" where
  "holds_text st txt =
     (length (fst st) = 256 \<and> snd st = int (length txt) \<and> take (length txt) (fst st) = txt)"

section \<open>Index arithmetic\<close>

lemma smod_1024_nonneg: "0 \<le> (a::int) \<Longrightarrow> a smod 1024 = a mod 1024"
  by (simp add: smod_int_alt_def sgn_if)

lemma next_index_range:
  "0 \<le> (a::int) \<Longrightarrow> 0 \<le> (a + 1) smod CIRC_BUFFER_SIZE \<and> (a + 1) smod CIRC_BUFFER_SIZE < CIRC_BUFFER_SIZE"
  by (simp add: CIRC_BUFFER_SIZE_def smod_1024_nonneg)

section \<open>The indices stay inside the array\<close>

lemma wf_circ_write_loop: "wf_buffer s \<Longrightarrow> wf_buffer (circ_write_loop s data)"
proof (induction data arbitrary: s)
  case Nil
  then show ?case by simp
next
  case (Cons c cs)
  let ?next = "(head s + 1) smod CIRC_BUFFER_SIZE"
  let ?s' = "s\<lparr>circ_buffer := (circ_buffer s)[nat (head s) := c], head := ?next\<rparr>"
  from Cons.prems have "0 \<le> head s" by (simp add: wf_buffer_def)
  then have "0 \<le> ?next \<and> ?next < CIRC_BUFFER_SIZE" by (rule next_index_range)
  with Cons.prems have "wf_buffer ?s'" by (simp add: wf_buffer_def)
  then have "wf_buffer (circ_write_loop ?s' cs)" by (rule Cons.IH)
  with Cons.prems show ?case by (simp add: Let_def)
qed

lemma wf_mutex [simp]:
  "wf_buffer (mutex_lock s) = wf_buffer s" "wf_buffer (mutex_unlock s) = wf_buffer s"
  by (simp_all add: wf_buffer_def mutex_lock_def mutex_unlock_def)

lemma wf_circ_buffer_write: "wf_buffer s \<Longrightarrow> wf_buffer (circ_buffer_write s data len)"
  by (simp add: circ_buffer_write_def wf_circ_write_loop)

lemma device_read_loop_stop:
  assumes "\<not> (bytes_copied < count \<and> tail s \<noteq> head s)"
  shows "device_read_loop s count user_ok bytes_copied ubuf = (int bytes_copied, ubuf, mutex_unlock s)"
proof -
  have "device_read_loop s count user_ok bytes_copied ubuf =
     (if bytes_copied < count \<and> tail s \<noteq> head s then
        if \<not> user_ok bytes_copied then (- EFAULT, ubuf, mutex_unlock s)
        else device_read_loop (s\<lparr>tail := (tail s + 1) smod CIRC_BUFFER_SIZE\<rparr>) count user_ok
               (Suc bytes_copied) (ubuf @ [circ_buffer s ! nat (tail s)])
      else (int bytes_copied, ubuf, mutex_unlock s))"
    by (rule device_read_loop.simps)
  also have "\<dots> = (int bytes_copied, ubuf, mutex_unlock s)"
    using assms by (rule if_not_P)
  finally show ?thesis .
qed

lemma device_read_loop_fault:
  assumes "bytes_copied < count" and "tail s \<noteq> head s" and "\<not> user_ok bytes_copied"
  shows "device_read_loop s count user_ok bytes_copied ubuf = (- EFAULT, ubuf, mutex_unlock s)"
proof -
  have "device_read_loop s count user_ok bytes_copied ubuf =
     (if bytes_copied < count \<and> tail s \<noteq> head s then
        if \<not> user_ok bytes_copied then (- EFAULT, ubuf, mutex_unlock s)
        else device_read_loop (s\<lparr>tail := (tail s + 1) smod CIRC_BUFFER_SIZE\<rparr>) count user_ok
               (Suc bytes_copied) (ubuf @ [circ_buffer s ! nat (tail s)])
      else (int bytes_copied, ubuf, mutex_unlock s))"
    by (rule device_read_loop.simps)
  also have "\<dots> = (- EFAULT, ubuf, mutex_unlock s)"
    using assms by simp
  finally show ?thesis .
qed

lemma device_read_loop_copy:
  assumes "bytes_copied < count" and "tail s \<noteq> head s" and "user_ok bytes_copied"
  shows "device_read_loop s count user_ok bytes_copied ubuf =
   device_read_loop (s\<lparr>tail := (tail s + 1) smod CIRC_BUFFER_SIZE\<rparr>) count user_ok
     (Suc bytes_copied) (ubuf @ [circ_buffer s ! nat (tail s)])"
proof -
  have "device_read_loop s count user_ok bytes_copied ubuf =
     (if bytes_copied < count \<and> tail s \<noteq> head s then
        if \<not> user_ok bytes_copied then (- EFAULT, ubuf, mutex_unlock s)
        else device_read_loop (s\<lparr>tail := (tail s + 1) smod CIRC_BUFFER_SIZE\<rparr>) count user_ok
               (Suc bytes_copied) (ubuf @ [circ_buffer s ! nat (tail s)])
      else (int bytes_copied, ubuf, mutex_unlock s))"
    by (rule device_read_loop.simps)
  also have "\<dots> = device_read_loop (s\<lparr>tail := (tail s + 1) smod CIRC_BUFFER_SIZE\<rparr>) count user_ok
     (Suc bytes_copied) (ubuf @ [circ_buffer s ! nat (tail s)])"
    using assms by simp
  finally show ?thesis .
qed

lemma wf_device_read_loop:
  "wf_buffer s \<Longrightarrow> wf_buffer (snd (snd (device_read_loop s count user_ok bytes_copied ubuf)))"
proof (induction s count user_ok bytes_copied ubuf rule: device_read_loop.induct)
  case (1 s count user_ok bytes_copied ubuf)
  let ?s' = "s\<lparr>tail := (tail s + 1) smod CIRC_BUFFER_SIZE\<rparr>"
  from "1.prems" have "0 \<le> tail s" by (simp add: wf_buffer_def)
  then have "0 \<le> (tail s + 1) smod CIRC_BUFFER_SIZE \<and> (tail s + 1) smod CIRC_BUFFER_SIZE < CIRC_BUFFER_SIZE"
    by (rule next_index_range)
  with "1.prems" have wf': "wf_buffer ?s'" by (simp add: wf_buffer_def)
  show ?case
  proof (cases "bytes_copied < count \<and> tail s \<noteq> head s")
    case False
    with "1.prems" show ?thesis by (simp add: device_read_loop_stop)
  next
    case continue: True
    show ?thesis
    proof (cases "user_ok bytes_copied")
      case False
      with continue "1.prems" show ?thesis by (simp add: device_read_loop_fault)
    next
      case ok: True
      have "wf_buffer (snd (snd (device_read_loop ?s' count user_ok (Suc bytes_copied)
              (ubuf @ [circ_buffer s ! nat (tail s)]))))"
        using continue ok wf' by (intro "1.IH") simp_all
      with continue ok show ?thesis by (simp add: device_read_loop_copy)
    qed
  qed
qed

lemma wf_device_read: "wf_buffer s \<Longrightarrow> wf_buffer (snd (snd (device_read s count user_ok)))"
  by (simp add: device_read_def wf_device_read_loop)

lemma wf_buffer_step: "wf_buffer s \<Longrightarrow> wf_buffer (buffer_step s x)"
  by (cases x) (simp_all add: wf_circ_buffer_write wf_device_read)

lemma wf_buffer_run: "wf_buffer s \<Longrightarrow> wf_buffer (buffer_run s ops)"
  unfolding buffer_run_def
  by (induction ops arbitrary: s) (simp_all add: wf_buffer_step)

lemma wf_driver_init: "wf_buffer driver_init"
  by (simp add: wf_buffer_def driver_init_def CIRC_BUFFER_SIZE_def)

lemma occupied_range: "wf_buffer s \<Longrightarrow> 0 \<le> occupied s \<and> occupied s \<le> 1023"
  by (simp add: wf_buffer_def occupied_def CIRC_BUFFER_SIZE_def smod_1024_nonneg)

text \<open>
  Claim C1. Whatever sequence of \<^verbatim>\<open>circ_buffer_write\<close> and \<^verbatim>\<open>device_read\<close> calls runs
  from the empty buffer of a freshly loaded driver (reads with any count and any user
  buffer, faulting or not), the write index and the read index are in \<open>[0, 1024)\<close>
  afterwards, and the occupied byte count \<open>(head - tail + 1024) % 1024\<close> is at most 1023.
\<close>

theorem C1_indices_in_range:
  "0 \<le> head (buffer_run driver_init ops) \<and> head (buffer_run driver_init ops) < 1024
   \<and> 0 \<le> tail (buffer_run driver_init ops) \<and> tail (buffer_run driver_init ops) < 1024
   \<and> 0 \<le> occupied (buffer_run driver_init ops) \<and> occupied (buffer_run driver_init ops) \<le> 1023"
proof -
  have wf: "wf_buffer (buffer_run driver_init ops)"
    using wf_driver_init by (rule wf_buffer_run)
  then have "0 \<le> occupied (buffer_run driver_init ops) \<and> occupied (buffer_run driver_init ops) \<le> 1023"
    by (rule occupied_range)
  with wf show ?thesis by (simp add: wf_buffer_def CIRC_BUFFER_SIZE_def)
qed

section \<open>The buffer as a queue\<close>

lemma ring_distance:
  fixes h t :: int
  assumes "0 \<le> h" "h < 1024" "0 \<le> t" "t < 1024"
  shows "(h - t + 1024) mod 1024 = (if t \<le> h then h - t else h - t + 1024)"
proof (cases "t \<le> h")
  case True
  have "(h - t + 1024) mod 1024 = (h - t) mod 1024" by simp
  also from True assms have "\<dots> = h - t" by (simp add: mod_pos_pos_trivial)
  finally show ?thesis using True by simp
next
  case False
  with assms have "(h - t + 1024) mod 1024 = h - t + 1024"
    by (intro mod_pos_pos_trivial) simp_all
  with False show ?thesis by simp
qed

lemma occupied_cases:
  "wf_buffer s \<Longrightarrow> occupied s = (if tail s \<le> head s then head s - tail s else head s - tail s + 1024)"
  using ring_distance [of "head s" "tail s"]
  by (simp add: wf_buffer_def occupied_def CIRC_BUFFER_SIZE_def smod_1024_nonneg)

lemma length_ring_slice [simp]: "length (ring_slice buf t n) = n"
  by (simp add: ring_slice_def)

lemma length_contents: "wf_buffer s \<Longrightarrow> int (length (contents s)) = occupied s"
  by (simp add: contents_def occupied_cases wf_buffer_def CIRC_BUFFER_SIZE_def)

lemma ring_slice_0 [simp]: "ring_slice buf t 0 = []"
  by (simp add: ring_slice_def)

lemma ring_slice_Suc_end:
  "ring_slice buf t (Suc n) = ring_slice buf t n @ [buf ! nat ((t + int n) mod CIRC_BUFFER_SIZE)]"
  by (simp add: ring_slice_def)

lemma ring_slice_Suc_front:
  "ring_slice buf t (Suc n) =
   buf ! nat (t mod CIRC_BUFFER_SIZE) # ring_slice buf ((t + 1) mod CIRC_BUFFER_SIZE) n"
proof -
  have "[0 ..< Suc n] = 0 # map Suc [0 ..< n]"
    by (simp add: upt_conv_Cons map_Suc_upt del: upt_Suc)
  moreover have "\<And>k. ((t + 1) mod CIRC_BUFFER_SIZE + int k) mod CIRC_BUFFER_SIZE
      = (t + int (Suc k)) mod CIRC_BUFFER_SIZE"
    by (simp add: mod_add_left_eq mod_add_right_eq algebra_simps)
  ultimately show ?thesis
    by (simp add: ring_slice_def comp_def del: upt_Suc)
qed

lemma ring_slice_update:
  assumes "\<And>k. k < n \<Longrightarrow> nat ((t + int k) mod CIRC_BUFFER_SIZE) \<noteq> i"
  shows "ring_slice (buf[i := c]) t n = ring_slice buf t n"
proof -
  have "buf[i := c] ! nat ((t + int k) mod CIRC_BUFFER_SIZE) = buf ! nat ((t + int k) mod CIRC_BUFFER_SIZE)"
    if "k < n" for k
    using assms [OF that, THEN not_sym] by (rule nth_list_update_neq)
  then show ?thesis by (simp add: ring_slice_def)
qed

lemma mod_1024_cases:
  fixes x :: int
  assumes "0 \<le> x" "x < 2048"
  shows "x mod 1024 = (if x < 1024 then x else x - 1024)"
proof (cases "x < 1024")
  case True
  with assms show ?thesis by (simp add: mod_pos_pos_trivial)
next
  case False
  have "x mod 1024 = (x - 1024) mod 1024" by (simp add: minus_mod_self2)
  also from False assms have "\<dots> = x - 1024" by (intro mod_pos_pos_trivial) simp_all
  finally show ?thesis using False by simp
qed

lemma next_index_cases:
  "0 \<le> (a::int) \<Longrightarrow> a < 1024 \<Longrightarrow>
   (a + 1) smod CIRC_BUFFER_SIZE = (if a = 1023 then 0 else a + 1)"
  using mod_1024_cases [of "a + 1"]
  by (simp add: CIRC_BUFFER_SIZE_def smod_1024_nonneg)

lemma full_iff:
  assumes "wf_buffer s"
  shows "((head s + 1) smod CIRC_BUFFER_SIZE = tail s) = (occupied s = 1023)"
proof -
  from assms have h: "0 \<le> head s" "head s < 1024" and t: "0 \<le> tail s" "tail s < 1024"
    by (simp_all add: wf_buffer_def CIRC_BUFFER_SIZE_def)
  show ?thesis
    unfolding next_index_cases [OF h] occupied_cases [OF assms] using h t by auto
qed

lemma empty_iff: "wf_buffer s \<Longrightarrow> (tail s = head s) = (occupied s = 0)"
  by (auto simp: occupied_cases wf_buffer_def CIRC_BUFFER_SIZE_def)

lemma head_from_tail:
  "wf_buffer s \<Longrightarrow> (tail s + occupied s) mod CIRC_BUFFER_SIZE = head s"
  using mod_1024_cases [of "tail s + occupied s"]
  by (auto simp: occupied_cases wf_buffer_def CIRC_BUFFER_SIZE_def split: if_splits)

lemma before_head:
  "wf_buffer s \<Longrightarrow> int k < occupied s \<Longrightarrow> (tail s + int k) mod CIRC_BUFFER_SIZE \<noteq> head s"
  using mod_1024_cases [of "tail s + int k"]
  by (auto simp: occupied_cases wf_buffer_def CIRC_BUFFER_SIZE_def split: if_splits)

lemma ring_index_range:
  "0 \<le> (x::int) mod CIRC_BUFFER_SIZE \<and> x mod CIRC_BUFFER_SIZE < CIRC_BUFFER_SIZE"
  by (simp add: CIRC_BUFFER_SIZE_def)

text \<open>One iteration of the write loop that stores a byte.\<close>

lemma write_step:
  fixes s :: driver and c :: char
  assumes wf: "wf_buffer s" and room: "(head s + 1) smod CIRC_BUFFER_SIZE \<noteq> tail s"
  defines "s' \<equiv> s\<lparr>circ_buffer := (circ_buffer s)[nat (head s) := c],
                     head := (head s + 1) smod CIRC_BUFFER_SIZE\<rparr>"
  shows "wf_buffer s'" and "occupied s' = occupied s + 1" and "contents s' = contents s @ [c]"
proof -
  from wf have h: "0 \<le> head s" "head s < 1024" and t: "0 \<le> tail s" "tail s < 1024"
    and len: "length (circ_buffer s) = 1024"
    by (simp_all add: wf_buffer_def CIRC_BUFFER_SIZE_def)
  show wf': "wf_buffer s'"
    using wf next_index_range [of "head s"] by (simp add: s'_def wf_buffer_def)
  have hd': "head s' = (if head s = 1023 then 0 else head s + 1)" and tl': "tail s' = tail s"
    using next_index_cases [OF h] by (simp_all add: s'_def)
  from room have room': "(if head s = 1023 then 0 else head s + 1) \<noteq> tail s"
    using next_index_cases [OF h] by simp
  show occ': "occupied s' = occupied s + 1"
    unfolding occupied_cases [OF wf] occupied_cases [OF wf'] hd' tl'
    using h t room' by (auto split: if_splits)
  from wf have occ0: "0 \<le> occupied s" by (simp add: occupied_range)
  then have n: "nat (occupied s + 1) = Suc (nat (occupied s))" by simp
  have last: "(tail s + int (nat (occupied s))) mod CIRC_BUFFER_SIZE = head s"
    using head_from_tail [OF wf] occ0 by simp
  have buf': "circ_buffer s' = (circ_buffer s)[nat (head s) := c]"
    by (simp add: s'_def)
  have keep: "ring_slice (circ_buffer s') (tail s) (nat (occupied s))
      = ring_slice (circ_buffer s) (tail s) (nat (occupied s))"
    unfolding buf'
  proof (rule ring_slice_update)
    fix k assume "k < nat (occupied s)"
    then have "int k < occupied s" by simp
    from before_head [OF wf this] ring_index_range [of "tail s + int k"] h
    show "nat ((tail s + int k) mod CIRC_BUFFER_SIZE) \<noteq> nat (head s)"
      by (simp add: eq_nat_nat_iff)
  qed
  have new: "circ_buffer s' ! nat (head s) = c"
    unfolding buf' using h len by simp
  have "contents s' = ring_slice (circ_buffer s') (tail s) (Suc (nat (occupied s)))"
    by (simp add: contents_def occ' n tl')
  also have "\<dots> = ring_slice (circ_buffer s') (tail s) (nat (occupied s))
      @ [circ_buffer s' ! nat (head s)]"
    unfolding ring_slice_Suc_end last ..
  also have "\<dots> = contents s @ [c]"
    unfolding keep new by (simp add: contents_def)
  finally show "contents s' = contents s @ [c]" .
qed

lemma circ_write_loop_contents:
  "wf_buffer s \<Longrightarrow> contents (circ_write_loop s data) = contents s @ take (free_space s) data"
proof (induction data arbitrary: s)
  case Nil
  then show ?case by simp
next
  case (Cons c cs)
  let ?next = "(head s + 1) smod CIRC_BUFFER_SIZE"
  let ?s' = "s\<lparr>circ_buffer := (circ_buffer s)[nat (head s) := c], head := ?next\<rparr>"
  show ?case
  proof (cases "?next = tail s")
    case True
    with Cons.prems have "occupied s = 1023" by (simp add: full_iff)
    with True show ?thesis by (simp add: free_space_def CIRC_BUFFER_SIZE_def)
  next
    case False
    note step = write_step [OF Cons.prems False, of c]
    from Cons.prems False have "occupied s \<noteq> 1023" by (simp add: full_iff)
    with occupied_range [OF Cons.prems] have "occupied s < 1023" by simp
    with occupied_range [OF Cons.prems] step(2)
    have fs: "free_space s = Suc (free_space ?s')"
      by (simp add: free_space_def CIRC_BUFFER_SIZE_def)
    have "contents (circ_write_loop ?s' cs) = contents ?s' @ take (free_space ?s') cs"
      using step(1) by (rule Cons.IH)
    with False step(3) fs show ?thesis by (simp add: Let_def)
  qed
qed

section \<open>Reading\<close>

lemma ring_slice_drop:
  "drop m (ring_slice buf t n) = ring_slice buf ((t + int m) mod CIRC_BUFFER_SIZE) (n - m)"
proof (cases "m \<le> n")
  case True
  then have "drop m [0 ..< n] = map (\<lambda>k. k + m) [0 ..< n - m]"
    by (simp add: drop_upt map_add_upt)
  moreover have "\<And>k. ((t + int m) mod CIRC_BUFFER_SIZE + int k) mod CIRC_BUFFER_SIZE
      = (t + int (k + m)) mod CIRC_BUFFER_SIZE"
    by (simp add: mod_add_left_eq mod_add_right_eq algebra_simps)
  ultimately show ?thesis
    by (simp add: ring_slice_def drop_map comp_def)
next
  case False
  then show ?thesis by (simp add: ring_slice_def)
qed

lemma advance_0: "wf_buffer s \<Longrightarrow> advance s 0 = s"
  by (simp add: advance_def wf_buffer_def CIRC_BUFFER_SIZE_def mod_pos_pos_trivial)

lemma advance_advance: "advance (advance s i) j = advance s (i + j)"
  by (simp add: advance_def mod_add_left_eq mod_add_right_eq algebra_simps)

lemma advance_fields [simp]:
  "head (advance s i) = head s" "circ_buffer (advance s i) = circ_buffer s"
  "circ_mutex (advance s i) = circ_mutex s" "wii_hid_dev (advance s i) = wii_hid_dev s"
  "wii_connected (advance s i) = wii_connected s"
  "wii_last_battery (advance s i) = wii_last_battery s"
  "raw_requests (advance s i) = raw_requests s"
  by (simp_all add: advance_def)

lemma wf_advance: "wf_buffer s \<Longrightarrow> wf_buffer (advance s i)"
  by (simp add: advance_def wf_buffer_def CIRC_BUFFER_SIZE_def)

lemma occupied_advance:
  assumes wf: "wf_buffer s" and le: "int i \<le> occupied s"
  shows "occupied (advance s i) = occupied s - int i"
proof -
  from wf have h: "0 \<le> head s" "head s < 1024" and t: "0 \<le> tail s" "tail s < 1024"
    by (simp_all add: wf_buffer_def CIRC_BUFFER_SIZE_def)
  from le occupied_range [OF wf] have i: "int i \<le> 1023" by simp
  have tl: "tail (advance s i) = (if tail s + int i < 1024 then tail s + int i else tail s + int i - 1024)"
    using mod_1024_cases [of "tail s + int i"] t i
    by (simp add: advance_def CIRC_BUFFER_SIZE_def)
  show ?thesis
    unfolding occupied_cases [OF wf_advance [OF wf]] tl
    using le h t i unfolding occupied_cases [OF wf]
    by (auto split: if_splits)
qed

lemma contents_advance:
  assumes wf: "wf_buffer s" and le: "int i \<le> occupied s"
  shows "contents (advance s i) = drop i (contents s)"
proof -
  have "nat (occupied s - int i) = nat (occupied s) - i" by simp
  then show ?thesis
    by (simp add: contents_def occupied_advance [OF wf le] ring_slice_drop) (simp add: advance_def)
qed

lemma advance_1: "wf_buffer s \<Longrightarrow> s\<lparr>tail := (tail s + 1) smod CIRC_BUFFER_SIZE\<rparr> = advance s 1"
  by (simp add: advance_def wf_buffer_def CIRC_BUFFER_SIZE_def smod_1024_nonneg)

lemma contents_front:
  assumes wf: "wf_buffer s" and ne: "tail s \<noteq> head s"
  shows "contents s = circ_buffer s ! nat (tail s) # contents (advance s 1)"
proof -
  from wf ne have pos: "1 \<le> occupied s"
    using occupied_range [OF wf] empty_iff [OF wf] by simp
  then have n: "nat (occupied s) = Suc (nat (occupied s - 1))" by simp
  from wf have t: "tail s mod CIRC_BUFFER_SIZE = tail s"
    by (simp add: wf_buffer_def CIRC_BUFFER_SIZE_def mod_pos_pos_trivial)
  from pos have o1: "occupied (advance s 1) = occupied s - 1"
    using occupied_advance [OF wf, of 1] by simp
  have "contents s = ring_slice (circ_buffer s) (tail s) (Suc (nat (occupied s - 1)))"
    using n by (simp add: contents_def)
  also have "\<dots> = circ_buffer s ! nat (tail s)
      # ring_slice (circ_buffer s) ((tail s + 1) mod CIRC_BUFFER_SIZE) (nat (occupied s - 1))"
    unfolding ring_slice_Suc_front t ..
  also have "ring_slice (circ_buffer s) ((tail s + 1) mod CIRC_BUFFER_SIZE) (nat (occupied s - 1))
      = contents (advance s 1)"
    unfolding contents_def o1 by (simp add: advance_def)
  finally show ?thesis .
qed

lemma read_prefix:
  assumes "wf_buffer s" and "int i \<le> occupied s" and "bytes_copied + i \<le> count"
    and "\<And>k. k < i \<Longrightarrow> user_ok (bytes_copied + k)"
  shows "device_read_loop s count user_ok bytes_copied ubuf =
         device_read_loop (advance s i) count user_ok (bytes_copied + i) (ubuf @ take i (contents s))"
  using assms
proof (induction i arbitrary: s bytes_copied ubuf)
  case 0
  then show ?case by (simp add: advance_0)
next
  case (Suc i)
  from Suc.prems(1,2) have ne: "tail s \<noteq> head s"
    using empty_iff [of s] by auto
  have ok0: "user_ok bytes_copied" using Suc.prems(4) [of 0] by simp
  from Suc.prems(3) have lt: "bytes_copied < count" by simp
  let ?x = "circ_buffer s ! nat (tail s)"
  have wf1: "wf_buffer (advance s 1)" using Suc.prems(1) by (rule wf_advance)
  have occ1: "int i \<le> occupied (advance s 1)"
    using occupied_advance [OF Suc.prems(1), of 1] Suc.prems(2) by simp
  have "device_read_loop s count user_ok bytes_copied ubuf =
        device_read_loop (s\<lparr>tail := (tail s + 1) smod CIRC_BUFFER_SIZE\<rparr>) count user_ok
          (Suc bytes_copied) (ubuf @ [?x])"
    using lt ne ok0 by (rule device_read_loop_copy)
  also have "\<dots> = device_read_loop (advance s 1) count user_ok (Suc bytes_copied) (ubuf @ [?x])"
    unfolding advance_1 [OF Suc.prems(1)] ..
  also have "\<dots> = device_read_loop (advance (advance s 1) i) count user_ok (Suc bytes_copied + i)
        ((ubuf @ [?x]) @ take i (contents (advance s 1)))"
  proof (rule Suc.IH [OF wf1 occ1])
    show "Suc bytes_copied + i \<le> count" using Suc.prems(3) by simp
    show "user_ok (Suc bytes_copied + k)" if "k < i" for k
      using Suc.prems(4) [of "Suc k"] that by simp
  qed
  finally show ?case
    by (simp add: advance_advance contents_front [OF Suc.prems(1) ne])
qed

lemma contents_mutex [simp]:
  "contents (mutex_lock s) = contents s" "contents (mutex_unlock s) = contents s"
  "occupied (mutex_lock s) = occupied s" "occupied (mutex_unlock s) = occupied s"
  by (simp_all add: contents_def occupied_def mutex_lock_def mutex_unlock_def)

text \<open>A read whose copies all succeed.\<close>

lemma device_read_ok:
  assumes wf: "wf_buffer s" and ok: "\<And>k. k < min count (nat (occupied s)) \<Longrightarrow> user_ok k"
  shows "device_read s count user_ok =
         (int (min count (nat (occupied s))), take (min count (nat (occupied s))) (contents s),
          mutex_unlock (advance (mutex_lock s) (min count (nat (occupied s)))))"
proof -
  let ?n = "min count (nat (occupied s))"
  let ?l = "mutex_lock s"
  have wfl: "wf_buffer ?l" using wf by simp
  have le: "int ?n \<le> occupied ?l" using occupied_range [OF wf] by (simp add: min_def le_nat_iff)
  have "device_read s count user_ok =
        device_read_loop (advance ?l ?n) count user_ok (0 + ?n) ([] @ take ?n (contents ?l))"
    unfolding device_read_def
    by (rule read_prefix [OF wfl le]) (simp_all add: ok)
  moreover have "\<not> (?n < count \<and> tail (advance ?l ?n) \<noteq> head (advance ?l ?n))"
  proof (cases "count \<le> nat (occupied s)")
    case True
    then show ?thesis by simp
  next
    case False
    then have "occupied (advance ?l ?n) = 0"
      using occupied_advance [OF wfl le] occupied_range [OF wf] by simp
    then show ?thesis using empty_iff [OF wf_advance [OF wfl]] by simp
  qed
  ultimately show ?thesis by (simp add: device_read_loop_stop)
qed

text \<open>A read whose copy to offset \<open>i\<close> of the user's buffer is the first to fail.\<close>

lemma device_read_efault:
  assumes wf: "wf_buffer s" and i: "i < count" "int i < occupied s"
    and ok: "\<And>k. k < i \<Longrightarrow> user_ok k" and bad: "\<not> user_ok i"
  shows "device_read s count user_ok =
         (- EFAULT, take i (contents s), mutex_unlock (advance (mutex_lock s) i))"
proof -
  let ?l = "mutex_lock s"
  have wfl: "wf_buffer ?l" using wf by simp
  have le: "int i \<le> occupied ?l" using i by simp
  have "device_read s count user_ok =
        device_read_loop (advance ?l i) count user_ok (0 + i) ([] @ take i (contents ?l))"
    unfolding device_read_def
    using i by (intro read_prefix [OF wfl le]) (simp_all add: ok)
  moreover have "tail (advance ?l i) \<noteq> head (advance ?l i)"
    using occupied_advance [OF wfl le] i empty_iff [OF wf_advance [OF wfl], of i] by simp
  ultimately show ?thesis using i bad by (simp add: device_read_loop_fault)
qed

lemma circ_write_loop_frame:
  "tail (circ_write_loop s data) = tail s \<and> circ_mutex (circ_write_loop s data) = circ_mutex s
   \<and> wii_hid_dev (circ_write_loop s data) = wii_hid_dev s
   \<and> wii_connected (circ_write_loop s data) = wii_connected s
   \<and> wii_last_battery (circ_write_loop s data) = wii_last_battery s
   \<and> raw_requests (circ_write_loop s data) = raw_requests s"
  by (induction data arbitrary: s) (simp_all add: Let_def)

lemma circ_buffer_write_frame:
  "tail (circ_buffer_write s data len) = tail s
   \<and> circ_mutex (circ_buffer_write s data len) = False
   \<and> wii_hid_dev (circ_buffer_write s data len) = wii_hid_dev s
   \<and> wii_connected (circ_buffer_write s data len) = wii_connected s
   \<and> wii_last_battery (circ_buffer_write s data len) = wii_last_battery s
   \<and> raw_requests (circ_buffer_write s data len) = raw_requests s"
  using circ_write_loop_frame [of "mutex_lock s" "take len data"]
  by (simp add: circ_buffer_write_def mutex_lock_def mutex_unlock_def)

lemma free_space_mutex [simp]:
  "free_space (mutex_lock s) = free_space s" "free_space (mutex_unlock s) = free_space s"
  by (simp_all add: free_space_def)

lemma contents_circ_buffer_write:
  "wf_buffer s \<Longrightarrow>
   contents (circ_buffer_write s data len) = contents s @ take (free_space s) (take len data)"
  using circ_write_loop_contents [of "mutex_lock s" "take len data"]
  by (simp add: circ_buffer_write_def)

lemma free_space_length: "wf_buffer s \<Longrightarrow> free_space s = 1023 - length (contents s)"
  using length_contents [of s] by (simp add: free_space_def CIRC_BUFFER_SIZE_def)

lemma length_contents_nat: "wf_buffer s \<Longrightarrow> length (contents s) = nat (occupied s)"
  using length_contents [of s] by simp

lemma write_all_contents:
  "wf_buffer s \<Longrightarrow> length (concat ws) \<le> free_space s \<Longrightarrow>
   wf_buffer (write_all s ws) \<and> contents (write_all s ws) = contents s @ concat ws"
proof (induction ws arbitrary: s)
  case Nil
  then show ?case by simp
next
  case (Cons w ws)
  let ?s' = "circ_buffer_write s w (length w)"
  have wf': "wf_buffer ?s'" using Cons.prems(1) by (rule wf_circ_buffer_write)
  from Cons.prems have c': "contents ?s' = contents s @ w"
    by (simp add: contents_circ_buffer_write)
  from Cons.prems have "length (concat ws) \<le> free_space ?s'"
    by (simp add: free_space_length wf' c')
  with wf' have "wf_buffer (write_all ?s' ws) \<and> contents (write_all ?s' ws) = contents ?s' @ concat ws"
    by (rule Cons.IH)
  with c' show ?case by simp
qed

text \<open>A read into a user buffer that accepts every byte.\<close>

lemma device_read_all_ok:
  assumes wf: "wf_buffer s"
  shows "\<exists>s'. device_read s count (\<lambda>_. True) = (int (length (take count (contents s))), take count (contents s), s')
     \<and> wf_buffer s' \<and> contents s' = drop count (contents s) \<and> head s' = head s
     \<and> circ_buffer s' = circ_buffer s \<and> circ_mutex s' = False"
proof -
  let ?n = "min count (nat (occupied s))"
  let ?s' = "mutex_unlock (advance (mutex_lock s) ?n)"
  have len: "length (contents s) = nat (occupied s)" using wf by (rule length_contents_nat)
  have le: "int ?n \<le> occupied (mutex_lock s)"
    using occupied_range [OF wf] by (simp add: min_def le_nat_iff)
  have wfl: "wf_buffer (mutex_lock s)" using wf by simp
  have rd: "device_read s count (\<lambda>_. True) = (int ?n, take ?n (contents s), ?s')"
    using wf by (rule device_read_ok) simp
  have tk: "take ?n (contents s) = take count (contents s)"
    using len by (simp add: min_def)
  have dr: "drop ?n (contents s) = drop count (contents s)"
    using len by (simp add: min_def)
  have ln: "length (take count (contents s)) = ?n"
    using len by (simp add: min_def)
  have c: "contents ?s' = drop count (contents s)"
    using contents_advance [OF wfl le] dr by simp
  have w: "wf_buffer ?s'" using wf_advance [OF wfl] by simp
  have f: "head ?s' = head s" "circ_buffer ?s' = circ_buffer s" "circ_mutex ?s' = False"
    by (simp_all add: mutex_unlock_def mutex_lock_def)
  have "device_read s count (\<lambda>_. True) =
      (int (length (take count (contents s))), take count (contents s), ?s')"
    unfolding rd ln tk ..
  with c w f show ?thesis by blast
qed

lemma read_all_fifo:
  "wf_buffer s \<Longrightarrow> read_all s counts = map (\<lambda>b. (int (length b), b)) (fifo_chunks (contents s) counts)"
proof (induction counts arbitrary: s)
  case Nil
  then show ?case by simp
next
  case (Cons count counts)
  from device_read_all_ok [OF Cons.prems, of count] obtain s' where
    rd: "device_read s count (\<lambda>_. True) = (int (length (take count (contents s))), take count (contents s), s')"
    and wf': "wf_buffer s'" and c': "contents s' = drop count (contents s)"
    by blast
  from Cons.IH [OF wf'] c' rd show ?case by simp
qed

text \<open>
  Claim C2. Writes \<open>w1, w2, \<dots>\<close> that together fit into the free space lose no byte
  (lemma \<open>contents_circ_buffer_write\<close>: a write drops bytes exactly when it is longer than
  the free space). After them the reads behave as reads of a first-in first-out queue that
  holds the bytes stored before followed by \<open>w1 @ w2 @ \<dots>\<close>: each read returns the next
  bytes in that order, at most as many as it asked for, with their number as its return
  value; once the buffer is empty a read returns 0 and no bytes, which is not an error.
\<close>

theorem C2_fifo:
  assumes "wf_buffer s" and "length (concat ws) \<le> free_space s"
  shows "read_all (write_all s ws) counts =
         map (\<lambda>b. (int (length b), b)) (fifo_chunks (contents s @ concat ws) counts)"
  using write_all_contents [OF assms] by (simp add: read_all_fifo)

lemma contents_driver_init: "contents driver_init = []"
  by (simp add: contents_def occupied_def driver_init_def CIRC_BUFFER_SIZE_def smod_1024_nonneg)

lemma free_space_driver_init: "free_space driver_init = 1023"
  by (simp add: free_space_def occupied_def driver_init_def CIRC_BUFFER_SIZE_def smod_1024_nonneg)

theorem C2_fifo_witness:
  "read_all (write_all driver_init [''ab'', ''cde'']) [2, 5, 1] =
   [(2, ''ab''), (3, ''cde''), (0, [])]"
  using C2_fifo [of driver_init "[''ab'', ''cde'']" "[2, 5, 1]"]
  by (simp add: wf_driver_init free_space_driver_init contents_driver_init)

lemma wii_raw_event_returns_0: "fst (wii_raw_event s data sz) = 0"
  by (simp add: wii_raw_event_def split: prod.splits)

lemma full_after_overflow:
  assumes wf: "wf_buffer s" and over: "free_space s < length data"
  shows "occupied (circ_buffer_write s data (length data)) = 1023"
proof -
  let ?s' = "circ_buffer_write s data (length data)"
  have wf': "wf_buffer ?s'" using wf by (rule wf_circ_buffer_write)
  have "length (contents ?s') = length (contents s) + free_space s"
    using over by (simp add: contents_circ_buffer_write [OF wf])
  also have "\<dots> = 1023"
    using length_contents [OF wf] occupied_range [OF wf] by (simp add: free_space_length [OF wf])
  finally show ?thesis using length_contents [OF wf'] by simp
qed

text \<open>
  Claim C3. A \<^verbatim>\<open>circ_buffer_write\<close> of more bytes than the free space stores exactly the
  prefix of the input that fits, behind the unread bytes stored before, which stay as they
  were. It stops when advancing the write index would make it equal to the read index, so
  the buffer is full afterwards; the bytes stored are kept and the rest of the input is
  dropped. The function returns nothing to its caller (its model yields only the new
  state), and the ingestion callback \<^verbatim>\<open>wii_raw_event\<close> returns 0 in every state, full
  buffer or not. A read that follows returns the old unread bytes and the stored prefix, 1023
  bytes in all when it asks for that many, and never a byte of the dropped suffix.
\<close>

theorem C3_overflow_drops_suffix:
  assumes "wf_buffer s" and "free_space s < length data"
  shows "(let s' = circ_buffer_write s data (length data) in
          contents s' = contents s @ take (free_space s) data
          \<and> length (take (free_space s) data) = free_space s
          \<and> (head s' + 1) smod CIRC_BUFFER_SIZE = tail s'
          \<and> free_space s' = 0
          \<and> fst (snd (device_read s' count (\<lambda>_. True))) = take count (contents s @ take (free_space s) data)
          \<and> fst (device_read s' count (\<lambda>_. True)) = int (min count 1023)
          \<and> fst (wii_raw_event s report sz) = 0)"
proof -
  let ?s' = "circ_buffer_write s data (length data)"
  have wf': "wf_buffer ?s'" using assms(1) by (rule wf_circ_buffer_write)
  have c: "contents ?s' = contents s @ take (free_space s) data"
    using assms(1) by (simp add: contents_circ_buffer_write)
  have occ: "occupied ?s' = 1023" using assms by (rule full_after_overflow)
  then have full: "(head ?s' + 1) smod CIRC_BUFFER_SIZE = tail ?s'"
    using full_iff [OF wf'] by simp
  have fs: "free_space ?s' = 0" using occ by (simp add: free_space_def CIRC_BUFFER_SIZE_def)
  have len: "length (contents ?s') = 1023" using length_contents_nat [OF wf'] occ by simp
  from device_read_all_ok [OF wf', of count] obtain s'' where
    "device_read ?s' count (\<lambda>_. True) =
       (int (length (take count (contents ?s'))), take count (contents ?s'), s'')"
    by blast
  then have rd: "fst (snd (device_read ?s' count (\<lambda>_. True))) = take count (contents ?s')"
    and rv: "fst (device_read ?s' count (\<lambda>_. True)) = int (length (take count (contents ?s')))"
    by simp_all
  have rv': "fst (device_read ?s' count (\<lambda>_. True)) = int (min count 1023)"
    unfolding rv using len by (simp add: min.commute)
  from assms(2) have "length (take (free_space s) data) = free_space s" by simp
  with c full fs rd rv' wii_raw_event_returns_0 [of s report sz] show ?thesis
    unfolding Let_def by simp
qed

theorem C3_overflow_witness:
  "(let s' = circ_buffer_write driver_init (replicate 1030 CHR ''x'') 1030 in
          contents s' = replicate 1023 CHR ''x''
          \<and> (head s' + 1) smod CIRC_BUFFER_SIZE = tail s'
          \<and> free_space s' = 0
          \<and> fst (snd (device_read s' 2000 (\<lambda>_. True))) = replicate 1023 CHR ''x''
          \<and> fst (device_read s' 2000 (\<lambda>_. True)) = 1023
          \<and> fst (wii_raw_event driver_init [0x31, 0x01, 0x08] 3) = 0)"
  using C3_overflow_drops_suffix [of driver_init "replicate 1030 CHR ''x''" 2000 "[0x31, 0x01, 0x08]" 3]
  by (simp add: wf_driver_init free_space_driver_init contents_driver_init Let_def)

text \<open>
  Claim C10. \<^verbatim>\<open>device_read\<close> is not atomic when \<^verbatim>\<open>copy_to_user\<close> fails. If the copies to
  offsets \<open>0 ..< i\<close> of the user's buffer succeed and the copy to offset \<open>i\<close> fails, with
  more than \<open>i\<close> bytes stored and more than \<open>i\<close> requested, the call returns
  \<^verbatim>\<open>-EFAULT\<close>; the \<open>i\<close> bytes copied before have left the buffer for good, the byte
  whose copy failed is the oldest byte still stored, the write index and the array are
  untouched, the indices are in range and the mutex is released. A read tried again
  starts with the byte whose copy failed.
\<close>

theorem C10_read_fault_not_atomic:
  assumes "wf_buffer s" and "i < count" and "int i < occupied s"
    and "\<forall>k<i. user_ok k" and "\<not> user_ok i"
  shows "(let res = device_read s count user_ok; s' = snd (snd res) in
          fst res = - EFAULT
          \<and> fst (snd res) = take i (contents s)
          \<and> contents s' = drop i (contents s)
          \<and> hd (contents s') = contents s ! i
          \<and> head s' = head s \<and> circ_buffer s' = circ_buffer s
          \<and> wf_buffer s' \<and> circ_mutex s' = False
          \<and> fst (snd (device_read s' count' (\<lambda>_. True))) = take count' (drop i (contents s)))"
proof -
  let ?s' = "mutex_unlock (advance (mutex_lock s) i)"
  have wfl: "wf_buffer (mutex_lock s)" using assms(1) by simp
  have le: "int i \<le> occupied (mutex_lock s)" using assms(3) by simp
  have rd: "device_read s count user_ok = (- EFAULT, take i (contents s), ?s')"
    using assms by (intro device_read_efault) simp_all
  have wf': "wf_buffer ?s'" using wf_advance [OF wfl] by simp
  have c'': "contents (advance (mutex_lock s) i) = drop i (contents s)"
    using contents_advance [OF wfl le] by simp
  then have c': "contents ?s' = drop i (contents s)" by simp
  have "i < length (contents s)"
    using assms(3) length_contents [OF assms(1)] by simp
  then have hd: "hd (drop i (contents s)) = contents s ! i"
    by (simp add: hd_drop_conv_nth)
  have f: "head ?s' = head s" "circ_buffer ?s' = circ_buffer s" "circ_mutex ?s' = False"
    by (simp_all add: mutex_unlock_def mutex_lock_def)
  from device_read_all_ok [OF wf', of count'] obtain s'' where
    "device_read ?s' count' (\<lambda>_. True) =
       (int (length (take count' (contents ?s'))), take count' (contents ?s'), s'')"
    by blast
  then have again: "fst (snd (device_read ?s' count' (\<lambda>_. True))) = take count' (drop i (contents s))"
    by (simp add: c'')
  show ?thesis
    unfolding Let_def rd using wf' c' hd f again by simp
qed

theorem C10_read_fault_witness:
  "(let s = circ_buffer_write driver_init ''abcde'' 5;
        res = device_read s 4 (\<lambda>k. k < 2); s' = snd (snd res) in
      fst res = - 14 \<and> fst (snd res) = ''ab'' \<and> contents s' = ''cde''
      \<and> circ_mutex s' = False \<and> fst (snd (device_read s' 10 (\<lambda>_. True))) = ''cde'')"
proof -
  let ?s = "circ_buffer_write driver_init ''abcde'' 5"
  have c: "contents ?s = ''abcde''"
    by (simp add: contents_circ_buffer_write wf_driver_init contents_driver_init
        free_space_driver_init)
  have wf: "wf_buffer ?s" using wf_driver_init by (rule wf_circ_buffer_write)
  have occ: "int 2 < occupied ?s" using length_contents [OF wf] c by simp
  have "\<forall>k<(2::nat). k < 2" "\<not> (2::nat) < 2" by simp_all
  from C10_read_fault_not_atomic [OF wf _ occ this, of 4 10]
  show ?thesis by (simp add: Let_def c EFAULT_def)
qed

section \<open>The report decoder\<close>

lemma decimal_small: "n < 10 \<Longrightarrow> decimal n = [''0123456789'' ! n]"
  by (subst decimal.simps) simp

lemma decimal_large: "10 \<le> n \<Longrightarrow> decimal n = decimal (n div 10) @ [''0123456789'' ! (n mod 10)]"
  by (subst decimal.simps) simp

lemma length_decimal: "n < 1000 \<Longrightarrow> 1 \<le> length (decimal n) \<and> length (decimal n) \<le> 3"
proof -
  assume n: "n < 1000"
  show ?thesis
  proof (cases "n < 10")
    case True
    then show ?thesis by (simp add: decimal_small)
  next
    case False
    then have n10: "10 \<le> n" by simp
    show ?thesis
    proof (cases "n div 10 < 10")
      case True
      with n10 show ?thesis by (simp add: decimal_large decimal_small)
    next
      case False
      then have "10 \<le> n div 10" by simp
      moreover from n have "n div 10 div 10 < 10" by simp
      ultimately show ?thesis using n10 by (simp add: decimal_large decimal_small)
    qed
  qed
qed

lemma decimal_49: "decimal 49 = ''49''"
  by (simp add: decimal_large decimal_small)

lemma decimal_42: "decimal 42 = ''42''"
  by (simp add: decimal_large decimal_small)

lemma snprintf_fits:
  assumes "0 < sz" "sz \<le> 2147483647" "length str < sz" "off + sz \<le> length buf"
  shows "snprintf buf off sz str =
         (take off buf @ str @ [CHR 0x00] @ drop (off + length str + 1) buf, int (length str))"
  using assms by (simp add: snprintf_def)

lemma append_token_holds:
  assumes h: "holds_text st txt \<and> m \<le> length txt \<and> length txt \<le> n"
    and fit: "n + length token < 256"
  shows "holds_text (append_token c token st) (txt @ (if c then token else []))
         \<and> m \<le> length (txt @ (if c then token else []))
         \<and> length (txt @ (if c then token else [])) \<le> n + length token"
proof (cases c)
  case False
  with h show ?thesis by (simp add: append_token_def)
next
  case True
  obtain out len where st: "st = (out, len)" by (cases st)
  from h st have out: "length out = 256" and len: "len = int (length txt)"
    and tk: "take (length txt) out = txt" and n: "length txt \<le> n" and m: "m \<le> length txt"
    by (simp_all add: holds_text_def)
  from n fit have lt: "length txt + length token < 256" by simp
  have sz: "nat ((256 - int (length txt)) mod 18446744073709551616) = 256 - length txt"
    using lt by (simp add: mod_pos_pos_trivial nat_diff_distrib')
  have sn: "snprintf out (length txt) (256 - length txt) token =
      (take (length txt) out @ token @ [CHR 0x00] @ drop (length txt + length token + 1) out,
       int (length token))"
    using lt out by (intro snprintf_fits) simp_all
  have ap: "append_token c token st =
      (txt @ token @ [CHR 0x00] @ drop (length txt + length token + 1) out,
       int (length txt) + int (length token))"
    using True by (simp add: append_token_def st len sz sn tk)
  show ?thesis
    unfolding ap using True out lt n m by (simp add: holds_text_def)
qed

lemma holds_text_initial:
  "holds_text (replicate 256 c, 0) [] \<and> 0 \<le> length ([]::string) \<and> length ([]::string) \<le> 0"
  by (simp add: holds_text_def)

lemma length_report_header:
  "14 \<le> length (''Report: ID='' @ decimal (unat (report_id::u8)) @ '', '')
   \<and> length (''Report: ID='' @ decimal (unat report_id) @ '', '') \<le> 16"
proof -
  have "unat report_id < 256" using unsigned_less [of report_id, where ?'a = nat] by simp
  then have "unat report_id < 1000" by simp
  from length_decimal [OF this] show ?thesis by simp
qed

lemma newline_step:
  assumes "holds_text (out, len) txt" and "length txt < 255"
  shows "take (length txt + 1) (out[nat len := c, nat (len + 1) := d]) = txt @ [c]"
proof -
  from assms have out: "length out = 256" and len: "nat len = length txt"
    "nat (len + 1) = Suc (length txt)" and tk: "take (length txt) out = txt"
    by (simp_all add: holds_text_def)
  show ?thesis
    unfolding len using out assms(2) tk by (simp add: take_Suc_conv_app_nth)
qed

lemma concat_map_filter_Cons:
  "concat (map g (filter fst ((c, t) # xs))) = (if c then g (c, t) else []) @ concat (map g (filter fst xs))"
  by simp

lemma spaced_tokens_unfold:
  "spaced_tokens b1 b2 =
     (if b1 AND 0x02 \<noteq> 0 then ''Dpad_Right '' else [])
     @ (if b1 AND 0x04 \<noteq> 0 then ''Dpad_Down '' else [])
     @ (if b1 AND 0x08 \<noteq> 0 then ''Dpad_Up '' else [])
     @ (if b1 AND 0x10 \<noteq> 0 then ''Plus '' else [])
     @ (if b2 AND 0x10 \<noteq> 0 then ''Minus '' else [])
     @ (if b2 AND 0x80 \<noteq> 0 then ''Home '' else [])
     @ (if b2 AND 0x01 \<noteq> 0 then ''2 '' else [])
     @ (if b2 AND 0x02 \<noteq> 0 then ''1 '' else [])
     @ (if b2 AND 0x04 \<noteq> 0 then ''B '' else [])"
  unfolding spaced_tokens_def concat_map_filter_Cons
  by (simp only: snd_conv append.simps filter.simps list.map concat.simps append_Nil2)

lemma format_mapping_text:
  "\<exists>out. format_mapping report_id b1 b2 = (out, int (length (event_text report_id b1 b2)))
     \<and> length out = 256
     \<and> take (length (event_text report_id b1 b2)) out = event_text report_id b1 b2
     \<and> length (event_text report_id b1 b2) \<le> 78"
proof -
  let ?h = "''Report: ID='' @ decimal (unat report_id) @ '', ''"
  let ?st0 = "(replicate 256 (CHR 0x00), 0::int)"
  let ?st1 = "append_token True ?h ?st0"
  let ?st2 = "append_token (b1 AND 0x01 \<noteq> 0) ''Dpad_Left'' ?st1"
  let ?st3 = "append_token (b1 AND 0x02 \<noteq> 0) ''Dpad_Right '' ?st2"
  let ?st4 = "append_token (b1 AND 0x04 \<noteq> 0) ''Dpad_Down '' ?st3"
  let ?st5 = "append_token (b1 AND 0x08 \<noteq> 0) ''Dpad_Up '' ?st4"
  let ?st6 = "append_token (b1 AND 0x10 \<noteq> 0) ''Plus '' ?st5"
  let ?st7 = "append_token (b2 AND 0x10 \<noteq> 0) ''Minus '' ?st6"
  let ?st8 = "append_token (b2 AND 0x80 \<noteq> 0) ''Home '' ?st7"
  let ?st9 = "append_token (b2 AND 0x01 \<noteq> 0) ''2 '' ?st8"
  let ?st10 = "append_token (b2 AND 0x02 \<noteq> 0) ''1 '' ?st9"
  let ?st11 = "append_token (b2 AND 0x04 \<noteq> 0) ''B '' ?st10"
  let ?st12 = "append_token (b2 AND 0x08 \<noteq> 0) ''A'' ?st11"
  let ?t1 = "[] @ (if True then ?h else [])"
  let ?t2 = "?t1 @ (if b1 AND 0x01 \<noteq> 0 then ''Dpad_Left'' else [])"
  let ?t3 = "?t2 @ (if b1 AND 0x02 \<noteq> 0 then ''Dpad_Right '' else [])"
  let ?t4 = "?t3 @ (if b1 AND 0x04 \<noteq> 0 then ''Dpad_Down '' else [])"
  let ?t5 = "?t4 @ (if b1 AND 0x08 \<noteq> 0 then ''Dpad_Up '' else [])"
  let ?t6 = "?t5 @ (if b1 AND 0x10 \<noteq> 0 then ''Plus '' else [])"
  let ?t7 = "?t6 @ (if b2 AND 0x10 \<noteq> 0 then ''Minus '' else [])"
  let ?t8 = "?t7 @ (if b2 AND 0x80 \<noteq> 0 then ''Home '' else [])"
  let ?t9 = "?t8 @ (if b2 AND 0x01 \<noteq> 0 then ''2 '' else [])"
  let ?t10 = "?t9 @ (if b2 AND 0x02 \<noteq> 0 then ''1 '' else [])"
  let ?t11 = "?t10 @ (if b2 AND 0x04 \<noteq> 0 then ''B '' else [])"
  let ?t12 = "?t11 @ (if b2 AND 0x08 \<noteq> 0 then ''A'' else [])"
  have "holds_text ?st1 ?t1 \<and> 0 \<le> length ?t1 \<and> length ?t1 \<le> 0 + length ?h"
    using length_report_header [of report_id]
    by (intro append_token_holds [OF holds_text_initial]) simp
  then have h1: "holds_text ?st1 ?t1 \<and> 14 \<le> length ?t1 \<and> length ?t1 \<le> 16"
    using length_report_header [of report_id] by simp
  have h2: "holds_text ?st2 ?t2 \<and> 14 \<le> length ?t2 \<and> length ?t2 \<le> 16 + length ''Dpad_Left''"
    by (rule append_token_holds [OF h1]) simp
  have h3: "holds_text ?st3 ?t3 \<and> 14 \<le> length ?t3 \<and> length ?t3 \<le> 16 + length ''Dpad_Left'' + length ''Dpad_Right ''"
    by (rule append_token_holds [OF h2]) simp
  then have h3: "holds_text ?st3 ?t3 \<and> 14 \<le> length ?t3 \<and> length ?t3 \<le> 36" by simp
  have h4: "holds_text ?st4 ?t4 \<and> 14 \<le> length ?t4 \<and> length ?t4 \<le> 36 + length ''Dpad_Down ''"
    by (rule append_token_holds [OF h3]) simp
  have h5: "holds_text ?st5 ?t5 \<and> 14 \<le> length ?t5 \<and> length ?t5 \<le> 36 + length ''Dpad_Down '' + length ''Dpad_Up ''"
    by (rule append_token_holds [OF h4]) simp
  then have h5: "holds_text ?st5 ?t5 \<and> 14 \<le> length ?t5 \<and> length ?t5 \<le> 54" by simp
  have h6: "holds_text ?st6 ?t6 \<and> 14 \<le> length ?t6 \<and> length ?t6 \<le> 54 + length ''Plus ''"
    by (rule append_token_holds [OF h5]) simp
  have h7: "holds_text ?st7 ?t7 \<and> 14 \<le> length ?t7 \<and> length ?t7 \<le> 54 + length ''Plus '' + length ''Minus ''"
    by (rule append_token_holds [OF h6]) simp
  then have h7: "holds_text ?st7 ?t7 \<and> 14 \<le> length ?t7 \<and> length ?t7 \<le> 65" by simp
  have h8: "holds_text ?st8 ?t8 \<and> 14 \<le> length ?t8 \<and> length ?t8 \<le> 65 + length ''Home ''"
    by (rule append_token_holds [OF h7]) simp
  have h9: "holds_text ?st9 ?t9 \<and> 14 \<le> length ?t9 \<and> length ?t9 \<le> 65 + length ''Home '' + length ''2 ''"
    by (rule append_token_holds [OF h8]) simp
  then have h9: "holds_text ?st9 ?t9 \<and> 14 \<le> length ?t9 \<and> length ?t9 \<le> 72" by simp
  have h10: "holds_text ?st10 ?t10 \<and> 14 \<le> length ?t10 \<and> length ?t10 \<le> 72 + length ''1 ''"
    by (rule append_token_holds [OF h9]) simp
  have h11: "holds_text ?st11 ?t11 \<and> 14 \<le> length ?t11 \<and> length ?t11 \<le> 72 + length ''1 '' + length ''B ''"
    by (rule append_token_holds [OF h10]) simp
  then have h11: "holds_text ?st11 ?t11 \<and> 14 \<le> length ?t11 \<and> length ?t11 \<le> 76" by simp
  have h12: "holds_text ?st12 ?t12 \<and> 14 \<le> length ?t12 \<and> length ?t12 \<le> 76 + length ''A''"
    by (rule append_token_holds [OF h11]) simp
  obtain out len where st12: "?st12 = (out, len)" by (cases "?st12")
  define line where "line = ?t12"
  from h12 st12 have ht: "holds_text (out, len) line" and lo: "14 \<le> length line" and hi: "length line \<le> 77"
    by (simp_all add: line_def)
  from ht have len: "len = int (length line)" and out: "length out = 256"
    by (simp_all add: holds_text_def)
  from lo have ne: "line \<noteq> []" by auto
  have ev: "event_text report_id b1 b2 = line @ [CHR 0x0A]"
    unfolding event_text_def line_def spaced_tokens_unfold report_header_def
    by (simp only: append_assoc append_Nil if_True)
  have nl: "take (length line + 1) (out[nat len := CHR 0x0A, nat (len + 1) := CHR 0x00]) = line @ [CHR 0x0A]"
    using ht hi by (intro newline_step) simp_all
  have "format_mapping report_id b1 b2 =
      (out[nat len := CHR 0x0A, nat (len + 1) := CHR 0x00], len + 1)"
    unfolding format_mapping_def Let_def st12 using ne hi by (simp add: len)
  with nl out hi show ?thesis unfolding ev by (simp add: len)
qed

section \<open>Events and the ingestion path\<close>

lemma decoded_event_text:
  "3 \<le> sz \<Longrightarrow> decoded_event data sz = Some (event_text (data ! 0) (data ! 1) (data ! 2))"
proof -
  assume sz: "3 \<le> sz"
  from format_mapping_text [of "data ! 0" "data ! 1" "data ! 2"] obtain out where
    fm: "format_mapping (data ! 0) (data ! 1) (data ! 2)
         = (out, int (length (event_text (data ! 0) (data ! 1) (data ! 2))))"
    and tk: "take (length (event_text (data ! 0) (data ! 1) (data ! 2))) out
         = event_text (data ! 0) (data ! 1) (data ! 2)"
    by blast
  show ?thesis unfolding decoded_event_def fm using sz tk by simp
qed

lemma decoded_event_3: "decoded_event [report_id, b1, b2] 3 = Some (event_text report_id b1 b2)"
  using decoded_event_text [of 3 "[report_id, b1, b2]"] by simp

lemma take_stored_text: "take (length ev) (take 0 buf @ ev @ rest) = ev"
  by simp

lemma circ_buffer_write_take:
  "take n data = ev \<Longrightarrow> n = length ev \<Longrightarrow> circ_buffer_write s data n = circ_buffer_write s ev (length ev)"
  by (auto simp add: circ_buffer_write_def)

lemma perform_input_mapping_event:
  "3 \<le> sz \<Longrightarrow>
   perform_input_mapping s data sz =
   circ_buffer_write s (event_text (data ! 0) (data ! 1) (data ! 2))
     (length (event_text (data ! 0) (data ! 1) (data ! 2)))"
proof -
  assume sz: "3 \<le> sz"
  let ?ev = "event_text (data ! 0) (data ! 1) (data ! 2)"
  from format_mapping_text [of "data ! 0" "data ! 1" "data ! 2"] obtain out where
    fm: "format_mapping (data ! 0) (data ! 1) (data ! 2) = (out, int (length ?ev))"
    and tk: "take (length ?ev) out = ?ev"
    by blast
  have "circ_buffer_write s out (length ?ev) = circ_buffer_write s ?ev (length ?ev)"
    using tk by (rule circ_buffer_write_take) simp
  then show ?thesis unfolding perform_input_mapping_def fm using sz by simp
qed

lemma perform_input_mapping_short: "sz < 3 \<Longrightarrow> perform_input_mapping s data sz = s"
  by (simp add: perform_input_mapping_def)

lemma wii_raw_event_buttons:
  "3 \<le> sz \<Longrightarrow> data ! 0 \<noteq> 0x20 \<Longrightarrow>
   wii_raw_event s data sz =
   (0, circ_buffer_write s (event_text (data ! 0) (data ! 1) (data ! 2))
         (length (event_text (data ! 0) (data ! 1) (data ! 2))))"
  by (simp add: wii_raw_event_def perform_input_mapping_event)

lemma wii_raw_event_battery:
  assumes "2 \<le> sz" and "data ! 0 = 0x20"
  shows "wii_raw_event s data sz =
   (0, circ_buffer_write (s\<lparr>wii_last_battery := uint (data ! 1)\<rparr>)
         (''Battery: '' @ decimal (unat (data ! 1)) @ [CHR 0x0A])
         (length (''Battery: '' @ decimal (unat (data ! 1)) @ [CHR 0x0A])))"
proof -
  define bt where "bt = ''Battery: '' @ decimal (unat (data ! 1)) @ [CHR 0x0A]"
  define s1 where "s1 = s\<lparr>wii_last_battery := uint (data ! 1)\<rparr>"
  define stack where "stack = replicate 64 (CHR 0x00)"
  have "unat (data ! 1) < 256" using unsigned_less [of "data ! 1", where ?'a = nat] by simp
  then have "unat (data ! 1) < 1000" by simp
  from length_decimal [OF this] have len: "length bt < 64" by (simp add: bt_def)
  have sn: "snprintf stack 0 64 bt =
      (take 0 stack @ bt @ [CHR 0x00] @ drop (0 + length bt + 1) stack, int (length bt))"
    using len by (intro snprintf_fits) (simp_all add: stack_def)
  have "wii_raw_event s data sz =
      (case snprintf stack 0 64 bt of
         (battery_output, len) \<Rightarrow> (0, circ_buffer_write s1 battery_output (nat len)))"
    unfolding wii_raw_event_def bt_def s1_def stack_def using assms by simp
  also have "\<dots> = (0, circ_buffer_write s1
        (take 0 stack @ bt @ [CHR 0x00] @ drop (0 + length bt + 1) stack) (length bt))"
    unfolding sn by simp
  also have "\<dots> = (0, circ_buffer_write s1 bt (length bt))"
    by (simp only: circ_buffer_write_take [OF take_stored_text refl])
  finally show ?thesis unfolding bt_def s1_def .
qed

lemma contents_empty: "wf_buffer s \<Longrightarrow> tail s = head s \<Longrightarrow> contents s = [] \<and> free_space s = 1023"
  using empty_iff [of s] by (simp add: contents_def free_space_def CIRC_BUFFER_SIZE_def)

text \<open>Storing an event in an empty buffer and reading it back whole.\<close>

lemma write_then_read:
  assumes wf: "wf_buffer s" and empty: "tail s = head s"
    and fits: "length ev \<le> 1023" and count: "length ev \<le> count"
  shows "fst (device_read (circ_buffer_write s ev (length ev)) count (\<lambda>_. True)) = int (length ev)
     \<and> fst (snd (device_read (circ_buffer_write s ev (length ev)) count (\<lambda>_. True))) = ev"
proof -
  let ?s' = "circ_buffer_write s ev (length ev)"
  have wf': "wf_buffer ?s'" using wf by (rule wf_circ_buffer_write)
  have c: "contents ?s' = ev"
    using contents_empty [OF wf empty] fits by (simp add: contents_circ_buffer_write [OF wf])
  from device_read_all_ok [OF wf', of count] obtain s'' where
    "device_read ?s' count (\<lambda>_. True) =
       (int (length (take count (contents ?s'))), take count (contents ?s'), s'')"
    by blast
  with c count show ?thesis by simp
qed

lemma event_text_49_left_a:
  "event_text 0x31 0x01 0x08 = ''Report: ID=49, Dpad_LeftA'' @ [CHR 0x0A]"
  by (simp add: event_text_def report_header_def spaced_tokens_unfold decimal_49)

text \<open>
  Claim C4. For a report \<open>[id, 0x00, 0x00]\<close> the specification expects the line
  \<open>No buttons pressed\<close>. The source tests \<^verbatim>\<open>len == 0\<close> after the header
  \<open>Report: ID=<id>, \<close> has already been printed, so \<^verbatim>\<open>len\<close> is at least 14 there and the
  branch that prints \<open>No buttons pressed\<close> is never taken: for every report identifier the
  event handed to the circular buffer is the header followed by the newline, and it is not
  the line \<open>No buttons pressed\<close>.
\<close>

theorem C4_no_buttons_header_only:
  "decoded_event [report_id, 0, 0] 3
     = Some (''Report: ID='' @ decimal (unat report_id) @ '', '' @ [CHR 0x0A])
   \<and> decoded_event [report_id, 0, 0] 3 \<noteq> Some (''No buttons pressed'' @ [CHR 0x0A])"
  by (simp add: decoded_event_3 event_text_def report_header_def spaced_tokens_unfold)

text \<open>
  Claim C5, as amended. For every 3-byte report in which at least one of the 11 defined
  button bits is set, the event is the header \<open>Report: ID=<id>, \<close>, then the tokens of
  exactly the set bits and no others, in the fixed order \<open>Dpad_Left\<close>, \<open>Dpad_Right\<close>,
  \<open>Dpad_Down\<close>, \<open>Dpad_Up\<close>, \<open>Plus\<close> (byte 1 bits 0 to 4), \<open>Minus\<close>, \<open>Home\<close>, \<open>2\<close>, \<open>1\<close>,
  \<open>B\<close>, \<open>A\<close> (byte 2 bits 4, 7, 0, 1, 2, 3), then the newline. Each of \<open>Dpad_Right\<close> to
  \<open>B\<close> is followed by exactly one space, also when it is the last token of the line, and
  \<open>A\<close> is followed by none. What follows \<open>Dpad_Left\<close> is left open here (nothing or one
  space); the bits outside the 11 defined ones contribute nothing.
\<close>

theorem C5_tokens_spaced_in_order:
  assumes "b1 AND 0x1F \<noteq> 0 \<or> b2 AND 0x9F \<noteq> 0"
  shows "\<exists>sep. (sep = [] \<or> sep = '' '')
     \<and> decoded_event [report_id, b1, b2] 3 =
         Some (report_header report_id
               @ (if b1 AND 0x01 \<noteq> 0 then ''Dpad_Left'' @ sep else [])
               @ spaced_tokens b1 b2
               @ (if b2 AND 0x08 \<noteq> 0 then ''A'' else []) @ [CHR 0x0A])"
proof -
  have "decoded_event [report_id, b1, b2] 3 =
         Some (report_header report_id
               @ (if b1 AND 0x01 \<noteq> 0 then ''Dpad_Left'' @ [] else [])
               @ spaced_tokens b1 b2
               @ (if b2 AND 0x08 \<noteq> 0 then ''A'' else []) @ [CHR 0x0A])"
    unfolding decoded_event_3 event_text_def by simp
  then show ?thesis by blast
qed

theorem C5_tokens_witness:
  "(0x06::u8) AND 0x1F \<noteq> 0
   \<and> decoded_event [0x31, 0x06, 0x18] 3
       = Some (''Report: ID=49, Dpad_Right Dpad_Down Minus A'' @ [CHR 0x0A])"
  using C5_tokens_spaced_in_order [of "0x06" "0x18" "0x31"]
  by (simp add: report_header_def spaced_tokens_unfold decimal_49)

text \<open>
  Claim C5 as stated, with single spaces between the tokens, fails for the report
  \<open>[0x31, 0x03, 0x00]\<close>: the source prints \<open>Dpad_Left\<close> without a space after it and
  \<open>Dpad_Right\<close> with one, also at the end of the line.
\<close>

theorem C5_single_space_counterexample:
  "decoded_event [0x31, 0x03, 0x00] 3 = Some (''Report: ID=49, Dpad_LeftDpad_Right '' @ [CHR 0x0A])
   \<and> spec_event 0x31 0x03 0x00 = ''Report: ID=49, Dpad_Left Dpad_Right'' @ [CHR 0x0A]
   \<and> decoded_event [0x31, 0x03, 0x00] 3 \<noteq> Some (spec_event 0x31 0x03 0x00)"
  by (simp add: decoded_event_3 event_text_def report_header_def spaced_tokens_unfold
      spec_event_def spec_tokens_def decimal_49)

text \<open>
  Claim C6. Feeding the report \<open>[0x31, 0x01, 0x08]\<close> to \<^verbatim>\<open>wii_raw_event\<close> while the
  buffer is empty, and then reading at least 26 bytes from the device, yields exactly the
  26 bytes \<open>Report: ID=49, Dpad_LeftA\<close> and the newline; the callback returns 0.
\<close>

theorem C6_end_to_end_buttons:
  assumes "wf_buffer s" and "tail s = head s" and "26 \<le> count"
  shows "fst (wii_raw_event s [0x31, 0x01, 0x08] 3) = 0
     \<and> fst (device_read (snd (wii_raw_event s [0x31, 0x01, 0x08] 3)) count (\<lambda>_. True)) = 26
     \<and> fst (snd (device_read (snd (wii_raw_event s [0x31, 0x01, 0x08] 3)) count (\<lambda>_. True)))
         = ''Report: ID=49, Dpad_LeftA'' @ [CHR 0x0A]"
proof -
  let ?ev = "''Report: ID=49, Dpad_LeftA'' @ [CHR 0x0A]"
  have "wii_raw_event s [0x31, 0x01, 0x08] 3 =
      (0, circ_buffer_write s (event_text 0x31 0x01 0x08) (length (event_text 0x31 0x01 0x08)))"
    using wii_raw_event_buttons [of 3 "[0x31, 0x01, 0x08]" s] by simp
  then have ev: "wii_raw_event s [0x31, 0x01, 0x08] 3 = (0, circ_buffer_write s ?ev (length ?ev))"
    unfolding event_text_49_left_a .
  have "length ?ev \<le> 1023" "length ?ev \<le> count" using assms(3) by simp_all
  from write_then_read [OF assms(1,2) this] show ?thesis
    unfolding ev by simp
qed

theorem C6_end_to_end_witness:
  "fst (wii_raw_event driver_init [0x31, 0x01, 0x08] 3) = 0
     \<and> fst (device_read (snd (wii_raw_event driver_init [0x31, 0x01, 0x08] 3)) 255 (\<lambda>_. True)) = 26
     \<and> fst (snd (device_read (snd (wii_raw_event driver_init [0x31, 0x01, 0x08] 3)) 255 (\<lambda>_. True)))
         = ''Report: ID=49, Dpad_LeftA'' @ [CHR 0x0A]"
  by (rule C6_end_to_end_buttons) (simp_all add: wf_driver_init, simp add: driver_init_def)

section \<open>What the operations leave alone\<close>

lemma device_read_loop_frame:
  "wii_hid_dev (snd (snd (device_read_loop s count user_ok bytes_copied ubuf))) = wii_hid_dev s
   \<and> wii_connected (snd (snd (device_read_loop s count user_ok bytes_copied ubuf))) = wii_connected s
   \<and> wii_last_battery (snd (snd (device_read_loop s count user_ok bytes_copied ubuf))) = wii_last_battery s
   \<and> raw_requests (snd (snd (device_read_loop s count user_ok bytes_copied ubuf))) = raw_requests s"
proof (induction s count user_ok bytes_copied ubuf rule: device_read_loop.induct)
  case (1 s count user_ok bytes_copied ubuf)
  show ?case
  proof (cases "bytes_copied < count \<and> tail s \<noteq> head s")
    case False
    then show ?thesis by (simp add: device_read_loop_stop mutex_unlock_def)
  next
    case continue: True
    show ?thesis
    proof (cases "user_ok bytes_copied")
      case False
      with continue show ?thesis by (simp add: device_read_loop_fault mutex_unlock_def)
    next
      case ok: True
      from "1.IH" [OF continue] ok continue show ?thesis
        by (simp add: device_read_loop_copy)
    qed
  qed
qed

lemma device_read_frame:
  "wii_hid_dev (snd (snd (device_read s count user_ok))) = wii_hid_dev s
   \<and> wii_connected (snd (snd (device_read s count user_ok))) = wii_connected s
   \<and> wii_last_battery (snd (snd (device_read s count user_ok))) = wii_last_battery s
   \<and> raw_requests (snd (snd (device_read s count user_ok))) = raw_requests s"
  using device_read_loop_frame [of "mutex_lock s" count user_ok 0 "[]"]
  by (simp add: device_read_def mutex_lock_def)

lemma perform_input_mapping_frame:
  "wii_hid_dev (perform_input_mapping s data sz) = wii_hid_dev s
   \<and> wii_connected (perform_input_mapping s data sz) = wii_connected s
   \<and> wii_last_battery (perform_input_mapping s data sz) = wii_last_battery s
   \<and> raw_requests (perform_input_mapping s data sz) = raw_requests s"
  by (simp add: perform_input_mapping_def circ_buffer_write_frame split: prod.splits)

lemma wii_raw_event_frame:
  "wii_hid_dev (snd (wii_raw_event s data sz)) = wii_hid_dev s
   \<and> wii_connected (snd (wii_raw_event s data sz)) = wii_connected s
   \<and> raw_requests (snd (wii_raw_event s data sz)) = raw_requests s"
  by (simp add: wii_raw_event_def circ_buffer_write_frame perform_input_mapping_frame
      split: prod.splits)

lemma wii_raw_event_battery_cases:
  "wii_last_battery (snd (wii_raw_event s data sz)) = wii_last_battery s
   \<or> wii_last_battery (snd (wii_raw_event s data sz)) = uint (data ! 1)"
  by (simp add: wii_raw_event_def circ_buffer_write_frame perform_input_mapping_frame
      split: prod.splits)

lemma device_ioctl_frame:
  "wii_hid_dev (snd (device_ioctl s cmd hw_ret)) = wii_hid_dev s
   \<and> wii_connected (snd (device_ioctl s cmd hw_ret)) = wii_connected s
   \<and> wii_last_battery (snd (device_ioctl s cmd hw_ret)) = wii_last_battery s"
  by (simp add: device_ioctl_def hid_hw_raw_request_def split: option.splits)

text \<open>The device pointer and the connection flag change together.\<close>

lemma connected_step:
  "(wii_hid_dev s = None) = (wii_connected s = 0) \<Longrightarrow>
   (wii_hid_dev (driver_step s x) = None) = (wii_connected (driver_step s x) = 0)"
  by (cases x)
     (simp_all add: wii_probe_def wii_remove_def wii_raw_event_frame device_ioctl_frame
       device_read_frame)

lemma connected_run:
  "(wii_hid_dev s = None) = (wii_connected s = 0) \<Longrightarrow>
   (wii_hid_dev (driver_run s ops) = None) = (wii_connected (driver_run s ops) = 0)"
  unfolding driver_run_def
  by (induction ops arbitrary: s) (simp_all add: connected_step)

lemma disconnected_iff:
  "(connection_state (driver_run driver_init ops) = Disconnected)
   = (wii_hid_dev (driver_run driver_init ops) = None)"
proof -
  have "(wii_hid_dev driver_init = None) = (wii_connected driver_init = 0)"
    by (simp add: driver_init_def)
  from connected_run [OF this, of ops] show ?thesis
    by (simp add: connection_state_def)
qed

lemma battery_step:
  assumes "wii_last_battery s = - 1 \<or> (0 \<le> wii_last_battery s \<and> wii_last_battery s \<le> 255)"
  shows "wii_last_battery (driver_step s x) = - 1
     \<or> (0 \<le> wii_last_battery (driver_step s x) \<and> wii_last_battery (driver_step s x) \<le> 255)"
proof (cases x)
  case (Raw_Event data)
  have "0 \<le> uint (data ! 1) \<and> uint (data ! 1) \<le> 255"
    using uint_bounded [of "data ! 1"] by simp
  with assms wii_raw_event_battery_cases [of s data "int (length data)"] Raw_Event
  show ?thesis by auto
qed (use assms in \<open>simp_all add: wii_probe_def wii_remove_def device_ioctl_frame device_read_frame\<close>)

lemma battery_run:
  "wii_last_battery s = - 1 \<or> (0 \<le> wii_last_battery s \<and> wii_last_battery s \<le> 255) \<Longrightarrow>
   wii_last_battery (driver_run s ops) = - 1
   \<or> (0 \<le> wii_last_battery (driver_run s ops) \<and> wii_last_battery (driver_run s ops) \<le> 255)"
  unfolding driver_run_def
proof (induction ops arbitrary: s)
  case Nil
  then show ?case by simp
next
  case (Cons x ops)
  from battery_step [OF Cons.prems, of x] have
    "wii_last_battery (foldl driver_step (driver_step s x) ops) = - 1
     \<or> (0 \<le> wii_last_battery (foldl driver_step (driver_step s x) ops)
        \<and> wii_last_battery (foldl driver_step (driver_step s x) ops) \<le> 255)"
    by (rule Cons.IH)
  then show ?case by simp
qed

text \<open>
  Claim C9, as amended. After every sequence of probes, removals, reports of any content,
  ioctls and reads, the cached battery level is either the unknown value \<open>- 1\<close> or an
  integer from 0 to 255: byte 1 of the last status report, stored as it came.
\<close>

theorem C9_battery_is_a_byte:
  "wii_last_battery (driver_run driver_init ops) = - 1
   \<or> (0 \<le> wii_last_battery (driver_run driver_init ops)
      \<and> wii_last_battery (driver_run driver_init ops) \<le> 255)"
  by (rule battery_run) (simp add: driver_init_def)

text \<open>
  Claim C9 as stated fails for the status report \<open>[0x20, 200]\<close>: the cached level is 200.
\<close>

theorem C9_battery_200_counterexample:
  "wii_last_battery (driver_run driver_init [Raw_Event [0x20, 200]]) = 200
   \<and> wii_last_battery (driver_run driver_init [Raw_Event [0x20, 200]]) \<noteq> - 1
   \<and> \<not> wii_last_battery (driver_run driver_init [Raw_Event [0x20, 200]]) \<le> 100"
proof -
  have "wii_raw_event driver_init [0x20, 200] 2 =
   (0, circ_buffer_write (driver_init\<lparr>wii_last_battery := uint ([0x20, 200 :: u8] ! 1)\<rparr>)
         (''Battery: '' @ decimal (unat ([0x20, 200 :: u8] ! 1)) @ [CHR 0x0A])
         (length (''Battery: '' @ decimal (unat ([0x20, 200 :: u8] ! 1)) @ [CHR 0x0A])))"
    by (rule wii_raw_event_battery) simp_all
  then have "wii_last_battery (snd (wii_raw_event driver_init [0x20, 200] 2)) = 200"
    by (simp add: circ_buffer_write_frame)
  then show ?thesis by (simp add: driver_run_def)
qed

text \<open>
  Claim C8, as amended. In every state that the driver can reach, the status request
  returns \<^verbatim>\<open>-ENODEV\<close> exactly when the Connection State is Disconnected or the transport
  itself returned \<^verbatim>\<open>-ENODEV\<close>. When disconnected the call changes nothing and hands nothing
  to the transport; otherwise it hands the one request to the transport, once, and returns
  the transport's result to its caller.
\<close>

theorem C8_no_device_or_transport:
  "(fst (device_ioctl (driver_run driver_init ops) WIIMOTE_IOCTL_REQUEST_STATUS hw_ret) = - ENODEV)
     = (connection_state (driver_run driver_init ops) = Disconnected \<or> hw_ret = - ENODEV)
   \<and> (if connection_state (driver_run driver_init ops) = Disconnected
      then device_ioctl (driver_run driver_init ops) WIIMOTE_IOCTL_REQUEST_STATUS hw_ret
             = (- ENODEV, driver_run driver_init ops)
      else device_ioctl (driver_run driver_init ops) WIIMOTE_IOCTL_REQUEST_STATUS hw_ret
             = (hw_ret, (driver_run driver_init ops)\<lparr>raw_requests :=
                  raw_requests (driver_run driver_init ops)
                  @ [(the (wii_hid_dev (driver_run driver_init ops)), 0x15, [0x15, 0x00])]\<rparr>))"
  unfolding disconnected_iff
  by (cases "wii_hid_dev (driver_run driver_init ops)")
     (simp_all add: device_ioctl_def hid_hw_raw_request_def)

text \<open>
  Claim C8 as stated fails when the transport returns \<open>-19\<close> to a connected driver: the
  ioctl passes that value on, and it is \<^verbatim>\<open>-ENODEV\<close>.
\<close>

theorem C8_transport_enodev_counterexample:
  "fst (device_ioctl (driver_run driver_init [Probe 1 0 0]) WIIMOTE_IOCTL_REQUEST_STATUS (- 19)) = - ENODEV
   \<and> connection_state (driver_run driver_init [Probe 1 0 0]) = Connected
   \<and> wii_hid_dev (driver_run driver_init [Probe 1 0 0]) = Some 1"
  by (simp add: driver_run_def wii_probe_def driver_init_def device_ioctl_def
      hid_hw_raw_request_def connection_state_def ENODEV_def)

text \<open>
  Claim C7, as amended. In a connected state with an empty buffer, the ioctl
  \<^verbatim>\<open>WIIMOTE_IOCTL_REQUEST_STATUS\<close> hands exactly one request to the transport, the two
  bytes \<open>[0x15, 0x00]\<close> as output report 0x15, and returns what the transport returned,
  unchanged: it succeeds exactly when the transport accepted the request. Whatever that
  result was, feeding the report \<open>[0x20, 42]\<close> afterwards makes the Connection State
  connected with battery level 42, and a read of at least 12 bytes yields the line
  \<open>Battery: 42\<close>.
\<close>

theorem C7_status_round_trip:
  assumes "wf_buffer s" and "tail s = head s" and "wii_hid_dev s = Some hdev"
    and "connection_state s = Connected" and "12 \<le> count"
  shows "(let r1 = device_ioctl s WIIMOTE_IOCTL_REQUEST_STATUS hw_ret; s1 = snd r1;
              s2 = snd (wii_raw_event s1 [0x20, 42] 2);
              r3 = device_read s2 count (\<lambda>_. True)
          in fst r1 = hw_ret
             \<and> raw_requests s1 = raw_requests s @ [(hdev, 0x15, [0x15, 0x00])]
             \<and> connection_state s2 = Connected_BatteryKnown 42
             \<and> fst r3 = 12 \<and> fst (snd r3) = ''Battery: 42'' @ [CHR 0x0A])"
proof -
  define s1 where "s1 = s\<lparr>raw_requests := raw_requests s @ [(hdev, 0x15, [0x15, 0x00])]\<rparr>"
  define s1b where "s1b = s1\<lparr>wii_last_battery := 42\<rparr>"
  let ?bt = "''Battery: 42'' @ [CHR 0x0A]"
  have io: "device_ioctl s WIIMOTE_IOCTL_REQUEST_STATUS hw_ret = (hw_ret, s1)"
    using assms(3) by (simp add: device_ioctl_def hid_hw_raw_request_def s1_def)
  have "wii_raw_event s1 [0x20, 42] 2 =
   (0, circ_buffer_write (s1\<lparr>wii_last_battery := uint ([0x20, 42 :: u8] ! 1)\<rparr>)
         (''Battery: '' @ decimal (unat ([0x20, 42 :: u8] ! 1)) @ [CHR 0x0A])
         (length (''Battery: '' @ decimal (unat ([0x20, 42 :: u8] ! 1)) @ [CHR 0x0A])))"
    by (rule wii_raw_event_battery) simp_all
  then have ev: "wii_raw_event s1 [0x20, 42] 2 = (0, circ_buffer_write s1b ?bt (length ?bt))"
    by (simp add: decimal_42 s1b_def)
  have wf1: "wf_buffer s1b" and e1: "tail s1b = head s1b"
    using assms(1,2) by (simp_all add: s1b_def s1_def wf_buffer_def)
  from assms(4) have conn: "wii_connected s \<noteq> 0"
    by (auto simp: connection_state_def split: if_splits)
  have cs: "connection_state (circ_buffer_write s1b ?bt (length ?bt)) = Connected_BatteryKnown 42"
    using conn by (simp add: connection_state_def circ_buffer_write_frame s1b_def s1_def)
  have "length ?bt \<le> 1023" "length ?bt \<le> count" using assms(5) by simp_all
  from write_then_read [OF wf1 e1 this] cs show ?thesis
    unfolding Let_def io snd_conv fst_conv ev by (simp add: s1_def)
qed

theorem C7_status_round_trip_witness:
  "(let s = driver_run driver_init [Probe 7 0 0];
        r1 = device_ioctl s WIIMOTE_IOCTL_REQUEST_STATUS 2; s1 = snd r1;
        s2 = snd (wii_raw_event s1 [0x20, 42] 2);
        r3 = device_read s2 255 (\<lambda>_. True)
    in connection_state s = Connected \<and> fst r1 = 2
       \<and> raw_requests s1 = [(7, 0x15, [0x15, 0x00])]
       \<and> connection_state s2 = Connected_BatteryKnown 42
       \<and> fst r3 = 12 \<and> fst (snd r3) = ''Battery: 42'' @ [CHR 0x0A])"
proof -
  let ?s = "driver_run driver_init [Probe 7 0 0]"
  have s: "?s = driver_init\<lparr>wii_hid_dev := Some 7, wii_connected := 1\<rparr>"
    by (simp add: driver_run_def wii_probe_def)
  have h: "wf_buffer ?s" "tail ?s = head ?s" "wii_hid_dev ?s = Some 7"
    "connection_state ?s = Connected" "(12::nat) \<le> 255"
    unfolding s by (simp_all add: wf_buffer_def driver_init_def CIRC_BUFFER_SIZE_def
        connection_state_def)
  have rr: "raw_requests ?s = []" unfolding s by (simp add: driver_init_def)
  from C7_status_round_trip [OF h] h(4) rr show ?thesis
    unfolding Let_def by simp
qed

text \<open>
  Claim C7 as stated, with a status request that succeeds whenever the driver is
  connected, fails when the transport refuses the request: a connected driver whose
  transport returns \<open>- 5\<close> hands the request over and returns \<open>- 5\<close> to its caller.
\<close>

theorem C7_transport_failure_counterexample:
  "connection_state (driver_run driver_init [Probe 7 0 0]) = Connected
   \<and> wii_hid_dev (driver_run driver_init [Probe 7 0 0]) = Some 7
   \<and> fst (device_ioctl (driver_run driver_init [Probe 7 0 0]) WIIMOTE_IOCTL_REQUEST_STATUS (- 5)) = - 5
   \<and> fst (device_ioctl (driver_run driver_init [Probe 7 0 0]) WIIMOTE_IOCTL_REQUEST_STATUS (- 5)) < 0
   \<and> raw_requests (snd (device_ioctl (driver_run driver_init [Probe 7 0 0])
         WIIMOTE_IOCTL_REQUEST_STATUS (- 5))) = [(7, 0x15, [0x15, 0x00])]"
  by (simp add: driver_run_def wii_probe_def driver_init_def device_ioctl_def
      hid_hw_raw_request_def connection_state_def)

end
